theory Spec2Isabelle
  imports Main
begin

section \<open>Values of the JavaScript program\<close>

text \<open>
  The repository holds two servers in \<open>src/backend/server.js\<close>: the Puppeteer server
  (global \<open>currentProcessing\<close>, lines 1-516) and the simulated server (global
  \<open>processingState\<close>, lines 517-711). Names of the simulated server that clash with
  the first one carry the suffix \<open>_sim\<close>.

  A spreadsheet cell as \<open>XLSX.utils.sheet_to_json\<close> delivers it: a string, a number
  or a boolean (numbers are modelled as integers). A string is the sequence of the bytes
  of its UTF-8 encoding. Message literals of the source that contain accented letters
  or emoji are written in plain ASCII here.
\<close>

datatype cell = CStr string | CNum int | CBool bool

text \<open>JavaScript truthiness of a cell, as used by \<open>||\<close>, \<open>&&\<close>, \<open>if\<close> and \<open>filter\<close>.\<close>

definition truthy :: "cell \<Rightarrow> bool" where
  "truthy v = (case v of CStr s \<Rightarrow> s \<noteq> [] | CNum n \<Rightarrow> n \<noteq> 0 | CBool b \<Rightarrow> b)"

text \<open>\<open>x || d\<close> where \<open>x\<close> may be \<open>undefined\<close> (\<open>None\<close>).\<close>

definition or_else :: "cell option \<Rightarrow> cell \<Rightarrow> cell" where
  "or_else x d = (case x of None \<Rightarrow> d | Some v \<Rightarrow> if truthy v then v else d)"

text \<open>Decimal rendering of a number inside a template literal.\<close>

definition digit :: "nat \<Rightarrow> char" where
  "digit n = ''0123456789'' ! n"

function show_nat :: "nat \<Rightarrow> string" where
  "show_nat n = (if n < 10 then [digit n] else show_nat (n div 10) @ [digit (n mod 10)])"
  by pat_completeness auto
termination
  by (relation "measure (\<lambda>n. n)") auto

declare show_nat.simps [simp del]

definition show_int :: "int \<Rightarrow> string" where
  "show_int i = (if i < 0 then ''-'' @ show_nat (nat (- i)) else show_nat (nat i))"

text \<open>\<open>String(v)\<close>, the conversion a template literal applies to a cell.\<close>

definition show_cell :: "cell \<Rightarrow> string" where
  "show_cell v = (case v of CStr s \<Rightarrow> s | CNum n \<Rightarrow> show_int n
                  | CBool b \<Rightarrow> (if b then ''true'' else ''false''))"

section \<open>The outside world\<close>

text \<open>
  Everything the program asks of its surroundings is a \<open>call\<close>: the clock
  (\<open>new Date().toISOString()\<close>), the random source of the simulated server (the reply
  \<open>RBool b\<close> to \<open>Random\<close> is the truth value of \<open>Math.random() > 0.1\<close>), the file
  system, the locale-dependent rendering of a \<open>Date\<close> and the Puppeteer browser and
  page. The world answers deterministically from
  the history of calls made so far, which is the most general deterministic
  environment; the history is kept in the state, so that theorems can speak about which
  calls were made and in which order.
\<close>

datatype call =
    Now | Random | Unlink
  | ToLocaleDateString cell | ToLocaleTimeString cell
  | Launch | NewPage | SetViewport | BrowserClose
  | Goto string | WaitForSelector string | WaitForNavigation | WaitForTimeout nat
  | Click string | Type string string | Select string string | Evaluate string
  | SelectAll | Press string

datatype reply = RUnit | RStr string | RNull | RBool bool | RThrow string

type_synonym env = "call list \<Rightarrow> call \<Rightarrow> reply"

section \<open>Log sink\<close>

record log =
  timestamp :: string
  message :: string
  type :: string

subsection \<open>Puppeteer server: \<open>currentProcessing\<close> and \<open>addLog\<close> (lines 44-62)\<close>

record arecord =
  id_r :: nat
  tipo :: cell
  idNCR :: cell
  startDate :: cell
  endDate :: cell
  comentario :: cell
  status :: string
  error :: "string option"

text \<open>
  \<open>currentRecord\<close> is a reference to an element of \<open>records\<close>; it is modelled as the
  index of that element, so that a write to the record is seen through both.
\<close>

record session =
  isProcessing :: bool
  currentRecord :: "nat option"
  totalRecords :: nat
  processedRecords :: nat
  logs :: "log list"
  records :: "arecord list"

record world =
  currentProcessing :: session
  hist :: "call list"

definition perform :: "env \<Rightarrow> call \<Rightarrow> world \<Rightarrow> reply \<times> world" where
  "perform orc c w = (orc (hist w) c, w\<lparr>hist := hist w @ [c]\<rparr>)"

definition now :: "env \<Rightarrow> world \<Rightarrow> string \<times> world" where
  "now orc w = (case perform orc Now w of
                  (RStr t, w') \<Rightarrow> (t, w')
                | (_, w') \<Rightarrow> ([], w'))"

text \<open>\<open>console.log\<close> writes to the terminal only and is left out.\<close>

definition addLog :: "env \<Rightarrow> string \<Rightarrow> string \<Rightarrow> world \<Rightarrow> world" where
  "addLog orc msg ty w =
     (let (t, w1) = now orc w;
          entry = \<lparr>timestamp = t, message = msg, type = ty\<rparr>
      in w1\<lparr>currentProcessing :=
              (currentProcessing w1)\<lparr>logs := logs (currentProcessing w1) @ [entry]\<rparr>\<rparr>)"

text \<open>\<open>GET /api/logs\<close> (lines 478-482): \<open>logs.slice(-50)\<close>.\<close>

definition slice_last :: "nat \<Rightarrow> 'a list \<Rightarrow> 'a list" where
  "slice_last n xs = drop (length xs - n) xs"

definition get_logs :: "world \<Rightarrow> log list" where
  "get_logs w = slice_last 50 (logs (currentProcessing w))"

subsection \<open>Simulated server: \<open>processingState\<close> and \<open>addLog\<close> (lines 536-555)\<close>

record srecord =
  id_s :: nat
  action :: cell
  ncrId :: cell
  startDate_s :: cell
  endDate_s :: cell
  comment :: cell
  status_s :: string
  result :: "string option"

text \<open>
  \<open>currentRecord\<close> of the simulated server refers to an element of the \<open>records\<close> array
  of the request that started the background task: task number and index.
\<close>

record session_sim =
  isProcessing_sim :: bool
  currentRecord_sim :: "(nat \<times> nat) option"
  processedCount :: nat
  totalCount :: nat
  logs_sim :: "log list"

record world_sim =
  processingState :: session_sim
  hist_sim :: "call list"

definition perform_sim :: "env \<Rightarrow> call \<Rightarrow> world_sim \<Rightarrow> reply \<times> world_sim" where
  "perform_sim orc c w = (orc (hist_sim w) c, w\<lparr>hist_sim := hist_sim w @ [c]\<rparr>)"

definition now_sim :: "env \<Rightarrow> world_sim \<Rightarrow> string \<times> world_sim" where
  "now_sim orc w = (case perform_sim orc Now w of
                      (RStr t, w') \<Rightarrow> (t, w')
                    | (_, w') \<Rightarrow> ([], w'))"

definition addLog_sim :: "env \<Rightarrow> string \<Rightarrow> string \<Rightarrow> world_sim \<Rightarrow> world_sim" where
  "addLog_sim orc msg ty w =
     (let (t, w1) = now_sim orc w;
          logEntry = \<lparr>timestamp = t, message = msg, type = ty\<rparr>;
          pushed = logs_sim (processingState w1) @ [logEntry]
      in w1\<lparr>processingState := (processingState w1)\<lparr>logs_sim :=
              (if length pushed > 100 then slice_last 100 pushed else pushed)\<rparr>\<rparr>)"

text \<open>Emitting a sequence of (message, severity) pairs, oldest first.\<close>

fun emit :: "env \<Rightarrow> (string \<times> string) list \<Rightarrow> world \<Rightarrow> world" where
  "emit orc [] w = w"
| "emit orc ((m, t) # es) w = emit orc es (addLog orc m t w)"

fun emit_sim :: "env \<Rightarrow> (string \<times> string) list \<Rightarrow> world_sim \<Rightarrow> world_sim" where
  "emit_sim orc [] w = w"
| "emit_sim orc ((m, t) # es) w = emit_sim orc es (addLog_sim orc m t w)"


section \<open>Asynchronous functions that may throw\<close>

text \<open>
  An \<open>async\<close> function of the source runs on the world and either returns a value
  (\<open>Inr\<close>) or throws an \<open>Error\<close> with a message (\<open>Inl\<close>).
\<close>

type_synonym 'a act = "world \<Rightarrow> (string + 'a) \<times> world"

definition ret :: "'a \<Rightarrow> 'a act" where
  "ret a w = (Inr a, w)"

definition throw :: "string \<Rightarrow> 'a act" where
  "throw e w = (Inl e, w)"

definition andThen :: "'a act \<Rightarrow> ('a \<Rightarrow> 'b act) \<Rightarrow> 'b act" where
  "andThen m f w = (case m w of (Inl e, w') \<Rightarrow> (Inl e, w') | (Inr a, w') \<Rightarrow> f a w')"

definition try_catch :: "'a act \<Rightarrow> (string \<Rightarrow> 'a act) \<Rightarrow> 'a act" where
  "try_catch body handler w =
     (case body w of (Inl e, w') \<Rightarrow> handler e w' | (Inr a, w') \<Rightarrow> (Inr a, w'))"

text \<open>\<open>await\<close> of a call to the outside world: a rejected promise is a throw.\<close>

definition await :: "env \<Rightarrow> call \<Rightarrow> reply act" where
  "await orc c w = (case perform orc c w of
                      (RThrow e, w') \<Rightarrow> (Inl e, w')
                    | (r, w') \<Rightarrow> (Inr r, w'))"

definition say :: "env \<Rightarrow> string \<Rightarrow> string \<Rightarrow> unit act" where
  "say orc msg ty w = (Inr (), addLog orc msg ty w)"

definition str_of :: "reply \<Rightarrow> string" where
  "str_of r = (case r of RStr s \<Rightarrow> s | _ \<Rightarrow> [])"

section \<open>String helpers\<close>

text \<open>\<open>toLowerCase\<close> on the ASCII letters (the field names of the source are ASCII).\<close>

definition lower_char :: "char \<Rightarrow> char" where
  "lower_char c = (case map_of (zip ''ABCDEFGHIJKLMNOPQRSTUVWXYZ''
                                    ''abcdefghijklmnopqrstuvwxyz'') c of
                     Some l \<Rightarrow> l | None \<Rightarrow> c)"

definition toLowerCase :: "string \<Rightarrow> string" where
  "toLowerCase s = map lower_char s"

text \<open>\<open>s.replace(' ', '')\<close>: only the first blank is removed.\<close>

fun remove_first_blank :: "string \<Rightarrow> string" where
  "remove_first_blank [] = []"
| "remove_first_blank (c # cs) = (if c = CHR '' '' then cs else c # remove_first_blank cs)"

section \<open>Class \<open>NCRAtleosAutomation\<close> (lines 65-318)\<close>

record automation =
  cred_username :: string
  cred_password :: string
  browser :: bool
  page :: bool

definition new_automation :: "string \<Rightarrow> string \<Rightarrow> automation" where
  "new_automation u p = \<lparr>cred_username = u, cred_password = p, browser = False, page = False\<rparr>"

text \<open>\<open>initialize\<close> (lines 72-80) assigns \<open>this.browser\<close> and \<open>this.page\<close> on the way.\<close>

definition initialize :: "env \<Rightarrow> automation \<Rightarrow> world \<Rightarrow> (string + unit) \<times> automation \<times> world" where
  "initialize orc au w =
     (let w1 = addLog orc ''Iniciando navegador...'' ''info'' w in
      case await orc Launch w1 of
        (Inl e, w2) \<Rightarrow> (Inl e, au, w2)
      | (Inr _, w2) \<Rightarrow>
          (let au1 = au\<lparr>browser := True\<rparr> in
           case await orc NewPage w2 of
             (Inl e, w3) \<Rightarrow> (Inl e, au1, w3)
           | (Inr _, w3) \<Rightarrow>
               (let au2 = au1\<lparr>page := True\<rparr> in
                case await orc SetViewport w3 of
                  (Inl e, w4) \<Rightarrow> (Inl e, au2, w4)
                | (Inr _, w4) \<Rightarrow> (Inr (), au2, w4))))"

definition usernameSelector :: string where
  \<open>usernameSelector = ''input[name="username"], input[type="text"]''\<close>

definition passwordSelector :: string where
  \<open>passwordSelector = ''input[name="password"], input[type="password"]''\<close>

definition loginButton :: string where
  \<open>loginButton = ''button[type="submit"], input[type="submit"], .btn:contains("LOG-IN")''\<close>

definition login :: "env \<Rightarrow> automation \<Rightarrow> bool act" where
  "login orc au =
     try_catch
       (andThen (say orc ''Navegando a NCR Atleos...'' ''info'') (\<lambda>_.
        andThen (await orc (Goto ''https://vision.dcs.latam.ncr.com/cxp-core-webapp/login'')) (\<lambda>_.
        andThen (await orc (WaitForSelector usernameSelector)) (\<lambda>_.
        andThen (say orc ''Introduciendo credenciales...'' ''info'') (\<lambda>_.
        andThen (await orc (Type usernameSelector (cred_username au))) (\<lambda>_.
        andThen (await orc (Type passwordSelector (cred_password au))) (\<lambda>_.
        andThen (await orc (Click loginButton)) (\<lambda>_.
        andThen (await orc WaitForNavigation) (\<lambda>_.
        andThen (say orc ''Login exitoso'' ''success'') (\<lambda>_.
        ret True))))))))))
       (\<lambda>e. andThen (say orc (''Error en login: '' @ e) ''error'') (\<lambda>_. ret False))"

definition searchSelector :: string where
  \<open>searchSelector = ''input[type="text"]:not([name="username"]):not([name="password"])''\<close>

definition atmSelector :: "string \<Rightarrow> string" where
  \<open>atmSelector i = ''a:contains("'' @ i @ ''"), tr:contains("'' @ i @ ''")''\<close>

definition searchAndSelectATM :: "env \<Rightarrow> cell \<Rightarrow> bool act" where
  "searchAndSelectATM orc idNCR_arg =
     try_catch
       (andThen (say orc (''Buscando ATM con ID: '' @ show_cell idNCR_arg) ''info'') (\<lambda>_.
        andThen (await orc (WaitForSelector searchSelector)) (\<lambda>_.
        andThen (await orc (Click searchSelector)) (\<lambda>_.
        andThen (await orc SelectAll) (\<lambda>_.
        andThen (await orc (Type searchSelector (show_cell idNCR_arg))) (\<lambda>_.
        andThen (await orc (Press ''Enter'')) (\<lambda>_.
        andThen (await orc (WaitForTimeout 3000)) (\<lambda>_.
        andThen (await orc (WaitForSelector (atmSelector (show_cell idNCR_arg)))) (\<lambda>_.
        andThen (await orc (Click (atmSelector (show_cell idNCR_arg)))) (\<lambda>_.
        andThen (say orc (''ATM '' @ show_cell idNCR_arg @ '' seleccionado exitosamente'')
                   ''success'') (\<lambda>_.
        ret True)))))))))))
       (\<lambda>e. andThen (say orc (''Error buscando ATM '' @ show_cell idNCR_arg @ '': '' @ e)
                        ''error'') (\<lambda>_. ret False))"

subsection \<open>\<open>fillField\<close> (lines 219-260)\<close>

definition selectors :: "string \<Rightarrow> string list" where
  \<open>selectors fieldName =
     [''input[name*="'' @ remove_first_blank (toLowerCase fieldName) @ ''"]'',
      ''textarea[name*="'' @ remove_first_blank (toLowerCase fieldName) @ ''"]'',
      ''select[name*="'' @ remove_first_blank (toLowerCase fieldName) @ ''"]'',
      ''input[placeholder*="'' @ fieldName @ ''"]'',
      ''label:contains("'' @ fieldName @ ''") + input'',
      ''label:contains("'' @ fieldName @ ''") + textarea'',
      ''label:contains("'' @ fieldName @ ''") + select'']\<close>

text \<open>The body of the inner \<open>try\<close> for one candidate selector.\<close>

definition fillField_try :: "env \<Rightarrow> string \<Rightarrow> string \<Rightarrow> string \<Rightarrow> unit act" where
  \<open>fillField_try orc fieldName val selector =
     andThen (await orc (WaitForSelector selector)) (\<lambda>_.
     andThen (await orc (Evaluate selector)) (\<lambda>elementType.
     andThen (if elementType = RStr ''select''
              then await orc (Select selector val)
              else andThen (await orc (Click selector)) (\<lambda>_.
                   andThen (await orc SelectAll) (\<lambda>_.
                   await orc (Type selector val)))) (\<lambda>_.
     say orc (''Campo "'' @ fieldName @ ''" llenado con: '' @ val) ''info'')))\<close>

text \<open>
  The \<open>for ... of\<close> loop over the candidates: \<open>True\<close> is the \<open>return\<close> inside the
  loop, \<open>False\<close> is falling out of the loop with every candidate caught.
\<close>

fun fillField_loop :: "env \<Rightarrow> string \<Rightarrow> string \<Rightarrow> string list \<Rightarrow> world \<Rightarrow> bool \<times> world" where
  "fillField_loop orc fieldName val [] w = (False, w)"
| "fillField_loop orc fieldName val (selector # rest) w =
     (case fillField_try orc fieldName val selector w of
        (Inr _, w') \<Rightarrow> (True, w')
      | (Inl e, w') \<Rightarrow> fillField_loop orc fieldName val rest w')"

definition fillField :: "env \<Rightarrow> string \<Rightarrow> string \<Rightarrow> unit act" where
  \<open>fillField orc fieldName val =
     try_catch
       (\<lambda>w. case fillField_loop orc fieldName val (selectors fieldName) w of
               (True, w') \<Rightarrow> (Inr (), w')
             | (False, w') \<Rightarrow>
                 say orc (''Advertencia: No se pudo encontrar el campo "'' @ fieldName @ ''"'')
                   ''warning'' w')
       (\<lambda>e. say orc (''Error llenando campo '' @ fieldName @ '': '' @ e) ''error'')\<close>

text \<open>\<open>fillDateField\<close> (lines 262-281).\<close>

definition fillDateField :: "env \<Rightarrow> string \<Rightarrow> cell \<Rightarrow> unit act" where
  "fillDateField orc fieldName dateString =
     try_catch
       (andThen (await orc (ToLocaleDateString dateString)) (\<lambda>formattedDate.
        andThen (await orc (ToLocaleTimeString dateString)) (\<lambda>formattedTime.
        fillField orc fieldName (str_of formattedDate @ '' '' @ str_of formattedTime))))
       (\<lambda>e. say orc (''Error con fecha '' @ fieldName @ '': '' @ e) ''error'')"

subsection \<open>\<open>fillIncidentForm\<close> (lines 188-217)\<close>

text \<open>Only the own keys of the object literal \<open>statusCodeMap\<close> are modelled.\<close>

definition statusCodeMap :: "string \<rightharpoonup> string" where
  "statusCodeMap = [''VANDG'' \<mapsto> ''VANDG Vandalismo en ATM - Grave'',
                    ''GENERAR'' \<mapsto> ''Otro codigo segun sea necesario'']"

definition statusCode_of :: "cell \<Rightarrow> string" where
  "statusCode_of t = (case statusCodeMap (show_cell t) of
                        Some v \<Rightarrow> (if v \<noteq> [] then v else ''VANDG Vandalismo en ATM - Grave'')
                      | None \<Rightarrow> ''VANDG Vandalismo en ATM - Grave'')"

definition fillIncidentForm :: "env \<Rightarrow> arecord \<Rightarrow> unit act" where
  "fillIncidentForm orc record =
     try_catch
       (andThen (fillField orc ''Status Code'' (statusCode_of (tipo record))) (\<lambda>_.
        andThen (fillDateField orc ''Start Date'' (startDate record)) (\<lambda>_.
        andThen (fillDateField orc ''End Date'' (endDate record)) (\<lambda>_.
        andThen (if truthy (comentario record)
                 then fillField orc ''Shared Comment'' (show_cell (comentario record))
                 else ret ()) (\<lambda>_.
        andThen (fillField orc ''Action Code'' ''25 Vandalism - Manual Close'') (\<lambda>_.
        say orc ''Formulario llenado correctamente'' ''info''))))))
       (\<lambda>e. andThen (say orc (''Error llenando formulario: '' @ e) ''error'') (\<lambda>_. throw e))"

subsection \<open>\<open>saveIncident\<close> (lines 283-310)\<close>

definition saveSelectors :: "string list" where
  \<open>saveSelectors = [''button:contains("Save")'', ''button:contains("SAVE")'',
                    ''input[type="submit"]:contains("Save")'', ''.btn:contains("Save")'']\<close>

definition saveIncident_try :: "env \<Rightarrow> string \<Rightarrow> unit act" where
  "saveIncident_try orc selector =
     andThen (await orc (WaitForSelector selector)) (\<lambda>_.
     andThen (await orc (Click selector)) (\<lambda>_.
     andThen (await orc (WaitForTimeout 2000)) (\<lambda>_.
     say orc ''Incidente guardado'' ''info'')))"

fun saveIncident_loop :: "env \<Rightarrow> string list \<Rightarrow> world \<Rightarrow> bool \<times> world" where
  "saveIncident_loop orc [] w = (False, w)"
| "saveIncident_loop orc (selector # rest) w =
     (case saveIncident_try orc selector w of
        (Inr _, w') \<Rightarrow> (True, w')
      | (Inl e, w') \<Rightarrow> saveIncident_loop orc rest w')"

definition saveIncident :: "env \<Rightarrow> unit act" where
  "saveIncident orc =
     try_catch
       (\<lambda>w. case saveIncident_loop orc saveSelectors w of
               (True, w') \<Rightarrow> (Inr (), w')
             | (False, w') \<Rightarrow> throw ''No se encontro el boton de guardar'' w')
       (\<lambda>e. andThen (say orc (''Error guardando incidente: '' @ e) ''error'') (\<lambda>_. throw e))"

subsection \<open>\<open>createIncident\<close> (lines 142-186)\<close>

definition createButtonSelectors :: "string list" where
  \<open>createButtonSelectors = [''button:contains("Create")'', ''a:contains("Create")'',
     ''.btn:contains("Create")'', ''button:contains("New")'', ''a:contains("New")'']\<close>

definition createButton_try :: "env \<Rightarrow> string \<Rightarrow> unit act" where
  "createButton_try orc selector =
     andThen (await orc (WaitForSelector selector)) (\<lambda>_.
     andThen (await orc (Click selector)) (\<lambda>_. ret ()))"

text \<open>The loop returns the final value of \<open>buttonFound\<close>.\<close>

fun createButton_loop :: "env \<Rightarrow> string list \<Rightarrow> world \<Rightarrow> bool \<times> world" where
  "createButton_loop orc [] w = (False, w)"
| "createButton_loop orc (selector # rest) w =
     (case createButton_try orc selector w of
        (Inr _, w') \<Rightarrow> (True, w')
      | (Inl e, w') \<Rightarrow> createButton_loop orc rest w')"

definition createIncident :: "env \<Rightarrow> arecord \<Rightarrow> bool act" where
  "createIncident orc record =
     try_catch
       (andThen (say orc (''Creando incidente para '' @ show_cell (idNCR record)) ''info'') (\<lambda>_.
        andThen (\<lambda>w. case createButton_loop orc createButtonSelectors w of
                        (buttonFound, w') \<Rightarrow>
                          (if \<not> buttonFound
                           then throw ''No se encontro el boton para crear incidente'' w'
                           else ret () w')) (\<lambda>_.
        andThen (await orc (WaitForTimeout 2000)) (\<lambda>_.
        andThen (fillIncidentForm orc record) (\<lambda>_.
        andThen (saveIncident orc) (\<lambda>_.
        andThen (say orc (''Incidente creado exitosamente para '' @ show_cell (idNCR record))
                   ''success'') (\<lambda>_.
        ret True)))))))
       (\<lambda>e. andThen (say orc (''Error creando incidente: '' @ e) ''error'') (\<lambda>_. ret False))"

text \<open>\<open>close\<close> (lines 312-317).\<close>

definition close :: "env \<Rightarrow> automation \<Rightarrow> unit act" where
  "close orc au =
     (if browser au
      then andThen (await orc BrowserClose) (\<lambda>_. say orc ''Navegador cerrado'' ''info'')
      else ret ())"

section \<open>Spreadsheet intake\<close>

datatype response =
    Json_error nat string
  | Json_success string
  | Json_upload "arecord list" nat
  | Json_upload_sim "srecord list" nat

text \<open>
  What reaches an upload handler: no file, a file the XLSX library rejects with a
  message, or the list that \<open>XLSX.utils.sheet_to_json\<close> returns for the first sheet.
  The library is not part of the repository: which rows of the sheet it delivers (with
  its default options it leaves out the rows that are entirely blank) is not modelled,
  and positions below are positions in the list it returns. For the Puppeteer server an
  element of the list is an object keyed by the header cells; for the simulated server
  (\<open>header: 1\<close>) it is an array with holes, the header row being the first.
\<close>

datatype upload_file = NoFile | Unreadable string | Sheet "(string \<rightharpoonup> cell) list"

datatype upload_file_sim = NoFile_sim | Unreadable_sim string | Sheet_sim "cell option list list"

subsection \<open>\<open>POST /api/upload-excel\<close> (lines 323-367)\<close>

definition row_record :: "nat \<times> (string \<rightharpoonup> cell) \<Rightarrow> arecord" where
  "row_record = (\<lambda>(index, row).
     \<lparr>id_r = index + 1,
      tipo = or_else (row ''GENERAR'') (or_else (row ''VANDG'') (CStr ''VANDG'')),
      idNCR = or_else (row ''Id NCR'') (CStr []),
      startDate = or_else (row ''Start Date'') (CStr []),
      endDate = or_else (row ''End Date'') (CStr []),
      comentario = or_else (row ''COMENTARIO'') (CStr []),
      status = ''pending'',
      error = None\<rparr>)"

definition parse_excel :: "(string \<rightharpoonup> cell) list \<Rightarrow> arecord list" where
  "parse_excel data = filter (\<lambda>record. truthy (idNCR record)) (map row_record (enumerate 0 data))"

definition upload_excel :: "env \<Rightarrow> upload_file \<Rightarrow> world \<Rightarrow> response \<times> world" where
  "upload_excel orc file w =
     (case file of
        NoFile \<Rightarrow> (Json_error 400 ''No se subio ningun archivo'', w)
      | Unreadable e \<Rightarrow> (Json_error 500 e, addLog orc (''Error procesando Excel: '' @ e) ''error'' w)
      | Sheet data \<Rightarrow>
          (let recs = parse_excel data;
               w1 = w\<lparr>currentProcessing := (currentProcessing w)
                      \<lparr>records := recs, totalRecords := length recs,
                       processedRecords := 0, logs := []\<rparr>\<rparr>;
               w2 = addLog orc (''Archivo Excel procesado: '' @ show_nat (length recs)
                                @ '' registros encontrados'') ''success'' w1
           in case await orc Unlink w2 of
                (Inl e, w3) \<Rightarrow>
                  (Json_error 500 e, addLog orc (''Error procesando Excel: '' @ e) ''error'' w3)
              | (Inr _, w3) \<Rightarrow> (Json_upload recs (length recs), w3)))"

subsection \<open>\<open>POST /api/upload\<close> of the simulated server (lines 629-664)\<close>

definition at :: "'a option list \<Rightarrow> nat \<Rightarrow> 'a option" where
  "at row k = (if k < length row then row ! k else None)"

definition row_record_sim :: "nat \<times> cell option list \<Rightarrow> srecord" where
  "row_record_sim = (\<lambda>(index, row).
     \<lparr>id_s = index + 1,
      action = or_else (at row 0) (CStr []),
      ncrId = or_else (at row 1) (CStr []),
      startDate_s = or_else (at row 2) (CStr []),
      endDate_s = or_else (at row 3) (CStr []),
      comment = or_else (at row 4) (CStr []),
      status_s = ''pending'',
      result = None\<rparr>)"

text \<open>
  \<open>String.prototype.trim\<close> removes the white space and line terminator code points
  from both ends: U+0009 to U+000D, U+0020, U+00A0, U+1680, U+2000 to U+200A, U+2028,
  U+2029, U+202F, U+205F, U+3000 and U+FEFF, here in their UTF-8 encodings.
\<close>

definition white_space :: "string list" where
  "white_space =
     [[CHR 0x09], [CHR 0x0A], [CHR 0x0B], [CHR 0x0C], [CHR 0x0D], [CHR 0x20],
      [CHR 0xC2, CHR 0xA0], [CHR 0xE1, CHR 0x9A, CHR 0x80],
      [CHR 0xE2, CHR 0x80, CHR 0x80], [CHR 0xE2, CHR 0x80, CHR 0x81],
      [CHR 0xE2, CHR 0x80, CHR 0x82], [CHR 0xE2, CHR 0x80, CHR 0x83],
      [CHR 0xE2, CHR 0x80, CHR 0x84], [CHR 0xE2, CHR 0x80, CHR 0x85],
      [CHR 0xE2, CHR 0x80, CHR 0x86], [CHR 0xE2, CHR 0x80, CHR 0x87],
      [CHR 0xE2, CHR 0x80, CHR 0x88], [CHR 0xE2, CHR 0x80, CHR 0x89],
      [CHR 0xE2, CHR 0x80, CHR 0x8A], [CHR 0xE2, CHR 0x80, CHR 0xA8],
      [CHR 0xE2, CHR 0x80, CHR 0xA9], [CHR 0xE2, CHR 0x80, CHR 0xAF],
      [CHR 0xE2, CHR 0x81, CHR 0x9F], [CHR 0xE3, CHR 0x80, CHR 0x80],
      [CHR 0xEF, CHR 0xBB, CHR 0xBF]]"

text \<open>Removing one of the given prefixes, the first that fits.\<close>

fun strip_one :: "string list \<Rightarrow> string \<Rightarrow> string option" where
  "strip_one [] s = None"
| "strip_one (p # ps) s =
     (if p \<noteq> [] \<and> take (length p) s = p then Some (drop (length p) s) else strip_one ps s)"

function trimStart :: "string list \<Rightarrow> string \<Rightarrow> string" where
  "trimStart ps s = (case strip_one ps s of None \<Rightarrow> s | Some r \<Rightarrow> trimStart ps r)"
  by pat_completeness auto
termination
proof (relation "measure (\<lambda>(ps, s). length s)")
  show "wf (measure (\<lambda>(ps, s). length s))" by simp
next
  fix ps :: "string list" and s r :: string
  assume "strip_one ps s = Some r"
  then have "length r < length s"
  proof (induction ps)
    case Nil
    then show ?case by simp
  next
    case (Cons p ps)
    show ?case
    proof (cases "p \<noteq> [] \<and> take (length p) s = p")
      case True
      then have "s \<noteq> []" by auto
      with True Cons.prems show ?thesis by auto
    next
      case False
      with Cons show ?thesis by auto
    qed
  qed
  then show "((ps, r), (ps, s)) \<in> measure (\<lambda>(ps, s). length s)" by simp
qed

declare trimStart.simps [simp del]

definition trim :: "string \<Rightarrow> string" where
  "trim s = rev (trimStart (map rev white_space) (rev (trimStart white_space s)))"

text \<open>
  The filter predicate \<open>record.ncrId && record.ncrId.trim() !== ''\<close>: on a truthy
  number or boolean \<open>trim\<close> is not a function and the call throws.
\<close>

definition keep_sim :: "srecord \<Rightarrow> string + bool" where
  "keep_sim record =
     (if \<not> truthy (ncrId record) then Inr False
      else case ncrId record of
             CStr s \<Rightarrow> Inr (trim s \<noteq> [])
           | _ \<Rightarrow> Inl ''record.ncrId.trim is not a function'')"

fun filter_sim :: "srecord list \<Rightarrow> string + srecord list" where
  "filter_sim [] = Inr []"
| "filter_sim (r # rs) =
     (case keep_sim r of
        Inl e \<Rightarrow> Inl e
      | Inr keep \<Rightarrow>
          (case filter_sim rs of
             Inl e \<Rightarrow> Inl e
           | Inr rest \<Rightarrow> Inr (if keep then r # rest else rest)))"

definition parse_sim :: "cell option list list \<Rightarrow> string + srecord list" where
  "parse_sim jsonData = filter_sim (map row_record_sim (enumerate 0 (drop 1 jsonData)))"

definition upload_sim :: "env \<Rightarrow> upload_file_sim \<Rightarrow> world_sim \<Rightarrow> response \<times> world_sim" where
  "upload_sim orc file w =
     (case file of
        NoFile_sim \<Rightarrow> (Json_error 400 ''No se subio archivo'', w)
      | Unreadable_sim e \<Rightarrow>
          (Json_error 500 e, addLog_sim orc (''Error al procesar Excel: '' @ e) ''error'' w)
      | Sheet_sim jsonData \<Rightarrow>
          (case parse_sim jsonData of
             Inl e \<Rightarrow>
               (Json_error 500 e, addLog_sim orc (''Error al procesar Excel: '' @ e) ''error'' w)
           | Inr processedData \<Rightarrow>
               (Json_upload_sim processedData (length processedData),
                addLog_sim orc (''Archivo procesado: '' @ show_nat (length processedData)
                                @ '' registros'') ''success'' w)))"

section \<open>Batch runner of the Puppeteer server\<close>

text \<open>
  The body of a request: \<open>credentials\<close> and \<open>config\<close> may be missing, and so may
  their fields.
\<close>

record credentials =
  username :: "string option"
  password :: "string option"

record config =
  delay :: "nat option"

record start_req =
  req_credentials :: "credentials option"
  req_config :: "config option"

text \<open>
  \<open>processRecords\<close> (lines 401-461) is an \<open>async\<close> function: it runs until its next
  \<open>await\<close>, and request handlers run in between. A background task is therefore a
  program counter naming the awaited operation, together with the local variables
  \<open>automation\<close> and \<open>config\<close>; the loop variable \<open>i\<close> is part of the program counter
  and the local \<open>record\<close> is \<open>records[i]\<close>. The awaits inside one method of
  \<open>NCRAtleosAutomation\<close> are taken in one step: between them only log entries are
  appended.
\<close>

datatype pc = AInit | ALogin | ASearch nat | ACreate nat | ADelay nat | AClose | ADone | ARejected

record task =
  automation_of :: automation
  config_of :: "config option"
  pc_of :: pc

record system =
  glob :: world
  tasks :: "task list"

definition set_record :: "nat \<Rightarrow> (arecord \<Rightarrow> arecord) \<Rightarrow> world \<Rightarrow> world" where
  "set_record i f w =
     w\<lparr>currentProcessing := (currentProcessing w)
          \<lparr>records := (records (currentProcessing w))[i := f (records (currentProcessing w) ! i)]\<rparr>\<rparr>"

definition increment_processed :: "world \<Rightarrow> world" where
  "increment_processed w =
     w\<lparr>currentProcessing := (currentProcessing w)
          \<lparr>processedRecords := processedRecords (currentProcessing w) + 1\<rparr>\<rparr>"

text \<open>The outer \<open>catch\<close> (line 454-455); afterwards the \<open>finally\<close> block awaits \<open>close\<close>.\<close>

definition fatal :: "env \<Rightarrow> string \<Rightarrow> world \<Rightarrow> pc \<times> world" where
  "fatal orc e w = (AClose, addLog orc (''Error fatal en procesamiento: '' @ e) ''error'' w)"

text \<open>
  The head of the \<open>for\<close> loop (line 412) and the statements up to the first await of
  the iteration (lines 413-420); after the loop, line 452 and the \<open>finally\<close> block.
\<close>

definition loop_head :: "env \<Rightarrow> nat \<Rightarrow> world \<Rightarrow> pc \<times> world" where
  "loop_head orc i w =
     (if i < length (records (currentProcessing w))
      then (let record = records (currentProcessing w) ! i;
                w1 = w\<lparr>currentProcessing := (currentProcessing w)\<lparr>currentRecord := Some i\<rparr>\<rparr>
            in (ASearch i,
                addLog orc (''Procesando registro '' @ show_nat (i + 1) @ ''/''
                            @ show_nat (totalRecords (currentProcessing w1)) @ '': ''
                            @ show_cell (idNCR record)) ''info'' w1))
      else (AClose, addLog orc ''Procesamiento completado'' ''success'' w))"

text \<open>The inner \<open>catch\<close> (lines 443-447), then line 449 and the next iteration.\<close>

definition record_failed :: "env \<Rightarrow> nat \<Rightarrow> string \<Rightarrow> world \<Rightarrow> pc \<times> world" where
  "record_failed orc i e w =
     (let record = records (currentProcessing w) ! i;
          w1 = set_record i (\<lambda>r. r\<lparr>status := ''error'', error := Some e\<rparr>) w;
          w2 = addLog orc (''Error procesando '' @ show_cell (idNCR record) @ '': '' @ e)
                 ''error'' w1
      in loop_head orc (i + 1) (increment_processed w2))"

text \<open>Lines 437-441: \<open>config && config.delay && i < records.length - 1\<close>.\<close>

definition delay_wanted :: "config option \<Rightarrow> nat \<Rightarrow> world \<Rightarrow> nat option" where
  "delay_wanted cfg i w =
     (case cfg of
        None \<Rightarrow> None
      | Some c \<Rightarrow>
          (case delay c of
             None \<Rightarrow> None
           | Some d \<Rightarrow>
               (if d \<noteq> 0 \<and> i + 1 < length (records (currentProcessing w))
                then Some d else None)))"

definition after_create :: "env \<Rightarrow> config option \<Rightarrow> nat \<Rightarrow> world \<Rightarrow> pc \<times> world" where
  "after_create orc cfg i w =
     (case delay_wanted cfg i w of
        Some d \<Rightarrow>
          (ADelay i,
           addLog orc (''Esperando '' @ show_nat d @ ''ms antes del siguiente registro...'')
             ''info'' w)
      | None \<Rightarrow> loop_head orc (i + 1) (increment_processed w))"

text \<open>
  One step of a background task: the awaited operation named by the program counter
  completes and the function runs on to its next await.
\<close>

definition resume :: "env \<Rightarrow> task \<Rightarrow> world \<Rightarrow> task \<times> world" where
  "resume orc t w =
     (case pc_of t of
        AInit \<Rightarrow>
          (case initialize orc (automation_of t) w of
             (Inl e, au', w') \<Rightarrow>
               (case fatal orc e w' of (p, w'') \<Rightarrow> (t\<lparr>automation_of := au', pc_of := p\<rparr>, w''))
           | (Inr _, au', w') \<Rightarrow> (t\<lparr>automation_of := au', pc_of := ALogin\<rparr>, w'))
      | ALogin \<Rightarrow>
          (case login orc (automation_of t) w of
             (Inl e, w') \<Rightarrow> (case fatal orc e w' of (p, w'') \<Rightarrow> (t\<lparr>pc_of := p\<rparr>, w''))
           | (Inr loginSuccess, w') \<Rightarrow>
               (if \<not> loginSuccess
                then (case fatal orc ''Error en el login'' w' of (p, w'') \<Rightarrow> (t\<lparr>pc_of := p\<rparr>, w''))
                else (case loop_head orc 0 w' of (p, w'') \<Rightarrow> (t\<lparr>pc_of := p\<rparr>, w''))))
      | ASearch i \<Rightarrow>
          (case searchAndSelectATM orc (idNCR (records (currentProcessing w) ! i)) w of
             (Inl e, w') \<Rightarrow> (case record_failed orc i e w' of (p, w'') \<Rightarrow> (t\<lparr>pc_of := p\<rparr>, w''))
           | (Inr searchSuccess, w') \<Rightarrow>
               (if \<not> searchSuccess
                then (case loop_head orc (i + 1)
                             (set_record i (\<lambda>r. r\<lparr>status := ''error'',
                                error := Some ''No se pudo encontrar el ATM''\<rparr>) w') of
                        (p, w'') \<Rightarrow> (t\<lparr>pc_of := p\<rparr>, w''))
                else (t\<lparr>pc_of := ACreate i\<rparr>, w')))
      | ACreate i \<Rightarrow>
          (case createIncident orc (records (currentProcessing w) ! i) w of
             (Inl e, w') \<Rightarrow> (case record_failed orc i e w' of (p, w'') \<Rightarrow> (t\<lparr>pc_of := p\<rparr>, w''))
           | (Inr createSuccess, w') \<Rightarrow>
               (let w1 = (if createSuccess
                          then addLog orc (''Registro ''
                                 @ show_cell (idNCR (records (currentProcessing w') ! i))
                                 @ '' procesado exitosamente'') ''success''
                                 (set_record i (\<lambda>r. r\<lparr>status := ''completed''\<rparr>) w')
                          else set_record i (\<lambda>r. r\<lparr>status := ''error'',
                                 error := Some ''Error creando incidente''\<rparr>) w')
                in case after_create orc (config_of t) i w1 of (p, w'') \<Rightarrow> (t\<lparr>pc_of := p\<rparr>, w'')))
      | ADelay i \<Rightarrow>
          (case loop_head orc (i + 1) (increment_processed w) of (p, w') \<Rightarrow> (t\<lparr>pc_of := p\<rparr>, w'))
      | AClose \<Rightarrow>
          (case close orc (automation_of t) w of
             (Inl e, w') \<Rightarrow> (t\<lparr>pc_of := ARejected\<rparr>, w')
           | (Inr _, w') \<Rightarrow>
               (t\<lparr>pc_of := ADone\<rparr>,
                w'\<lparr>currentProcessing := (currentProcessing w')
                     \<lparr>isProcessing := False, currentRecord := None\<rparr>\<rparr>))
      | ADone \<Rightarrow> (t, w)
      | ARejected \<Rightarrow> (t, w))"

subsection \<open>Request handlers (lines 369-398, 463-502)\<close>

definition present :: "string option \<Rightarrow> bool" where
  "present x = (case x of None \<Rightarrow> False | Some s \<Rightarrow> s \<noteq> [])"

definition credentials_ok :: "credentials option \<Rightarrow> bool" where
  "credentials_ok c = (case c of None \<Rightarrow> False
                       | Some cr \<Rightarrow> present (username cr) \<and> present (password cr))"

definition str_or_empty :: "string option \<Rightarrow> string" where
  "str_or_empty x = (case x of None \<Rightarrow> [] | Some s \<Rightarrow> s)"

text \<open>
  \<open>POST /api/start-processing\<close>. On acceptance the response is sent and
  \<open>processRecords\<close> is called: a new task is added, waiting in \<open>initialize\<close>.
\<close>

definition start_processing :: "env \<Rightarrow> start_req \<Rightarrow> system \<Rightarrow> response \<times> system" where
  "start_processing orc req s =
     (if isProcessing (currentProcessing (glob s))
      then (Json_error 400 ''Ya hay un procesamiento en curso'', s)
      else if \<not> credentials_ok (req_credentials req)
      then (Json_error 400 ''Credenciales requeridas'', s)
      else if length (records (currentProcessing (glob s))) = 0
      then (Json_error 400 ''No hay registros para procesar'', s)
      else (case req_credentials req of
              None \<Rightarrow> (Json_error 400 ''Credenciales requeridas'', s)
            | Some cr \<Rightarrow>
                (Json_success ''Procesamiento iniciado'',
                 s\<lparr>glob := (glob s)\<lparr>currentProcessing := (currentProcessing (glob s))
                               \<lparr>isProcessing := True, processedRecords := 0\<rparr>\<rparr>,
                   tasks := tasks s @
                     [\<lparr>automation_of = new_automation (str_or_empty (username cr))
                                          (str_or_empty (password cr)),
                       config_of = req_config req, pc_of = AInit\<rparr>]\<rparr>)))"

text \<open>\<open>POST /api/stop-processing\<close>.\<close>

definition stop_processing :: "env \<Rightarrow> world \<Rightarrow> response \<times> world" where
  "stop_processing orc w =
     (Json_success ''Procesamiento detenido'',
      addLog orc ''Procesamiento detenido por el usuario'' ''warning''
        (w\<lparr>currentProcessing := (currentProcessing w)\<lparr>isProcessing := False\<rparr>\<rparr>))"

text \<open>\<open>POST /api/clear-data\<close>.\<close>

definition clear_data :: "world \<Rightarrow> response \<times> world" where
  "clear_data w =
     (Json_success ''Datos limpiados'',
      w\<lparr>currentProcessing := \<lparr>isProcessing = False, currentRecord = None, totalRecords = 0,
                               processedRecords = 0, logs = [], records = []\<rparr>\<rparr>)"

text \<open>
  \<open>GET /api/processing-status\<close> reads the session; the \<open>progress\<close> field, a rounded
  floating-point quotient, is left out.
\<close>

definition processing_status :: "world \<Rightarrow> bool \<times> arecord option \<times> nat \<times> nat \<times> arecord list" where
  "processing_status w =
     (let cp = currentProcessing w
      in (isProcessing cp,
          (case currentRecord cp of None \<Rightarrow> None
           | Some i \<Rightarrow> if i < length (records cp) then Some (records cp ! i) else None),
          totalRecords cp, processedRecords cp, records cp))"

subsection \<open>The event loop\<close>

text \<open>
  What can happen next in the process: a start or stop request is handled, or the
  awaited operation of task \<open>k\<close> completes. Status and log reads do not change the
  state; every state of a run is a point at which they may observe it. Uploads and
  clears during a batch are not part of these schedules.
\<close>

datatype event = Start start_req | Stop | Tick nat

definition step :: "env \<Rightarrow> event \<Rightarrow> system \<Rightarrow> system" where
  "step orc ev s =
     (case ev of
        Start req \<Rightarrow> snd (start_processing orc req s)
      | Stop \<Rightarrow> s\<lparr>glob := snd (stop_processing orc (glob s))\<rparr>
      | Tick k \<Rightarrow>
          (if k < length (tasks s)
           then (case resume orc (tasks s ! k) (glob s) of
                   (t', w') \<Rightarrow> s\<lparr>glob := w', tasks := (tasks s)[k := t']\<rparr>)
           else s))"

fun run :: "env \<Rightarrow> event list \<Rightarrow> system \<Rightarrow> system" where
  "run orc [] s = s"
| "run orc (ev # evs) s = run orc evs (step orc ev s)"

text \<open>All states of a run, the observation points, oldest first.\<close>

fun observations :: "env \<Rightarrow> event list \<Rightarrow> system \<Rightarrow> system list" where
  "observations orc [] s = [s]"
| "observations orc (ev # evs) s = s # observations orc evs (step orc ev s)"

section \<open>Batch runner of the simulated server\<close>

record config_sim =
  username_sim :: "string option"
  password_sim :: "string option"
  delayBetweenRecords :: "nat option"

record process_req =
  req_config_sim :: config_sim
  req_records :: "srecord list"

text \<open>
  \<open>simulateAptraProcessing\<close> (lines 558-615). Its \<open>records\<close> array comes with the
  request and belongs to the task. Every await is a timer.
\<close>

datatype pc_sim = SLogin | SSearch nat | SCreate nat | SDelay nat | SDone

record task_sim =
  records_of :: "srecord list"
  config_sim_of :: config_sim
  pc_sim_of :: pc_sim

record system_sim =
  glob_sim :: world_sim
  tasks_sim :: "task_sim list"

text \<open>
  The loop condition \<open>i < records.length && processingState.isProcessing\<close> and the
  statements up to the first await of the iteration (lines 568-577); after the loop,
  lines 606-607 and the \<open>finally\<close> block, which has no await.
\<close>

definition loop_head_sim :: "env \<Rightarrow> nat \<Rightarrow> nat \<Rightarrow> task_sim \<Rightarrow> world_sim \<Rightarrow> task_sim \<times> world_sim" where
  "loop_head_sim orc k i t w =
     (if i < length (records_of t) \<and> isProcessing_sim (processingState w)
      then (let record = records_of t ! i;
                w1 = w\<lparr>processingState := (processingState w)
                        \<lparr>currentRecord_sim := Some (k, i), processedCount := i\<rparr>\<rparr>
            in (t\<lparr>pc_sim_of := SSearch i\<rparr>,
                addLog_sim orc (''Procesando '' @ show_cell (ncrId record) @ ''...'') ''info'' w1))
      else (let w1 = w\<lparr>processingState := (processingState w)
                        \<lparr>processedCount := length (records_of t)\<rparr>\<rparr>;
                w2 = addLog_sim orc ''Procesamiento completado'' ''success'' w1
            in (t\<lparr>pc_sim_of := SDone\<rparr>,
                w2\<lparr>processingState := (processingState w2)
                     \<lparr>isProcessing_sim := False, currentRecord_sim := None\<rparr>\<rparr>)))"

definition set_record_sim :: "nat \<Rightarrow> (srecord \<Rightarrow> srecord) \<Rightarrow> task_sim \<Rightarrow> task_sim" where
  "set_record_sim i f t = t\<lparr>records_of := (records_of t)[i := f (records_of t ! i)]\<rparr>"

definition resume_sim :: "env \<Rightarrow> nat \<Rightarrow> task_sim \<Rightarrow> world_sim \<Rightarrow> task_sim \<times> world_sim" where
  "resume_sim orc k t w =
     (case pc_sim_of t of
        SLogin \<Rightarrow>
          loop_head_sim orc k 0 t (addLog_sim orc ''Sesion iniciada correctamente'' ''success'' w)
      | SSearch i \<Rightarrow>
          (t\<lparr>pc_sim_of := SCreate i\<rparr>,
           addLog_sim orc (''Creando evento para '' @ show_cell (ncrId (records_of t ! i)) @ ''...'')
             ''info'' w)
      | SCreate i \<Rightarrow>
          (case perform_sim orc Random w of
             (r, w') \<Rightarrow>
               (if r = RBool True
                then ((set_record_sim i (\<lambda>rec. rec\<lparr>status_s := ''completed'',
                          result := Some ''Evento creado exitosamente''\<rparr>) t)\<lparr>pc_sim_of := SDelay i\<rparr>,
                      addLog_sim orc (''Evento creado para '' @ show_cell (ncrId (records_of t ! i)))
                        ''success'' w')
                else ((set_record_sim i (\<lambda>rec. rec\<lparr>status_s := ''failed'',
                          result := Some ''Error simulado''\<rparr>) t)\<lparr>pc_sim_of := SDelay i\<rparr>,
                      addLog_sim orc (''Error simulado con '' @ show_cell (ncrId (records_of t ! i)))
                        ''error'' w')))
      | SDelay i \<Rightarrow> loop_head_sim orc k (i + 1) t w
      | SDone \<Rightarrow> (t, w))"

text \<open>
  \<open>POST /api/process\<close> (lines 667-689): the call of \<open>simulateAptraProcessing\<close> runs
  to its first await before the response is sent.
\<close>

definition process :: "env \<Rightarrow> process_req \<Rightarrow> system_sim \<Rightarrow> response \<times> system_sim" where
  "process orc req s =
     (if isProcessing_sim (processingState (glob_sim s))
      then (Json_error 400 ''Ya hay un procesamiento en curso'', s)
      else if \<not> present (username_sim (req_config_sim req))
              \<or> \<not> present (password_sim (req_config_sim req))
      then (Json_error 400 ''Credenciales requeridas'', s)
      else (let w0 = glob_sim s;
                w1 = w0\<lparr>processingState := (processingState w0)
                        \<lparr>isProcessing_sim := True, totalCount := length (req_records req),
                         processedCount := 0, logs_sim := []\<rparr>\<rparr>;
                w2 = addLog_sim orc ''Iniciando procesamiento simulado...'' ''info'' w1;
                w3 = addLog_sim orc ''Simulando login a Aptra...'' ''info'' w2
            in (Json_success ''Procesamiento iniciado'',
                s\<lparr>glob_sim := w3,
                  tasks_sim := tasks_sim s @
                    [\<lparr>records_of = req_records req, config_sim_of = req_config_sim req,
                      pc_sim_of = SLogin\<rparr>]\<rparr>)))"

text \<open>\<open>POST /api/stop\<close> (lines 692-696).\<close>

definition stop_sim :: "env \<Rightarrow> world_sim \<Rightarrow> response \<times> world_sim" where
  "stop_sim orc w =
     (Json_success ''Procesamiento detenido'',
      addLog_sim orc ''Procesamiento detenido por usuario'' ''warning''
        (w\<lparr>processingState := (processingState w)\<lparr>isProcessing_sim := False\<rparr>\<rparr>))"

datatype event_sim = Process process_req | Stop_sim | Tick_sim nat

definition step_sim :: "env \<Rightarrow> event_sim \<Rightarrow> system_sim \<Rightarrow> system_sim" where
  "step_sim orc ev s =
     (case ev of
        Process req \<Rightarrow> snd (process orc req s)
      | Stop_sim \<Rightarrow> s\<lparr>glob_sim := snd (stop_sim orc (glob_sim s))\<rparr>
      | Tick_sim k \<Rightarrow>
          (if k < length (tasks_sim s)
           then (case resume_sim orc k (tasks_sim s ! k) (glob_sim s) of
                   (t', w') \<Rightarrow> s\<lparr>glob_sim := w', tasks_sim := (tasks_sim s)[k := t']\<rparr>)
           else s))"

fun run_sim :: "env \<Rightarrow> event_sim list \<Rightarrow> system_sim \<Rightarrow> system_sim" where
  "run_sim orc [] s = s"
| "run_sim orc (ev # evs) s = run_sim orc evs (step_sim orc ev s)"

fun observations_sim :: "env \<Rightarrow> event_sim list \<Rightarrow> system_sim \<Rightarrow> system_sim list" where
  "observations_sim orc [] s = [s]"
| "observations_sim orc (ev # evs) s = s # observations_sim orc evs (step_sim orc ev s)"

section \<open>Notions used by the statements\<close>

text \<open>
  A terminal status: \<open>completed\<close>, or the failure status, which the Puppeteer server
  writes as \<open>error\<close> and the simulated server as \<open>failed\<close>.
\<close>

definition terminal :: "string \<Rightarrow> bool" where
  "terminal st = (st = ''completed'' \<or> st = ''error'' \<or> st = ''failed'')"

definition terminal_count :: "system \<Rightarrow> nat" where
  "terminal_count s =
     length (filter (\<lambda>r. terminal (status r)) (records (currentProcessing (glob s))))"

definition processing_count :: "system \<Rightarrow> nat" where
  "processing_count s =
     length (filter (\<lambda>r. status r = ''processing'') (records (currentProcessing (glob s))))"

text \<open>The selectors waited for, and the number of times the browser was closed.\<close>

fun waited :: "call list \<Rightarrow> string list" where
  "waited [] = []"
| "waited (WaitForSelector s # cs) = s # waited cs"
| "waited (c # cs) = waited cs"

definition releases :: "call list \<Rightarrow> nat" where
  "releases cs = length (filter (\<lambda>c. c = BrowserClose) cs)"

text \<open>A log entry without its time stamp.\<close>

definition entry_of :: "log \<Rightarrow> string \<times> string" where
  "entry_of l = (message l, type l)"

section \<open>Concrete inputs\<close>

text \<open>The initial values of the two globals (lines 44-51 and 536-542).\<close>

definition initial_world :: world where
  "initial_world =
     \<lparr>currentProcessing = \<lparr>isProcessing = False, currentRecord = None, totalRecords = 0,
                            processedRecords = 0, logs = [], records = []\<rparr>,
      hist = []\<rparr>"

definition initial_world_sim :: world_sim where
  "initial_world_sim =
     \<lparr>processingState = \<lparr>isProcessing_sim = False, currentRecord_sim = None,
                          processedCount = 0, totalCount = 0, logs_sim = []\<rparr>,
      hist_sim = []\<rparr>"

text \<open>
  A world in which every call succeeds: every selector is found, every element is an
  \<open>input\<close>, the simulated outcome is a success.
\<close>

definition ok_env :: env where
  "ok_env h c = (case c of
                   Now \<Rightarrow> RStr ''2024-01-01T00:00:00.000Z''
                 | Random \<Rightarrow> RBool True
                 | Evaluate s \<Rightarrow> RStr ''input''
                 | ToLocaleDateString d \<Rightarrow> RStr ''01/01/2024''
                 | ToLocaleTimeString d \<Rightarrow> RStr ''10:00''
                 | _ \<Rightarrow> RUnit)"

text \<open>Three spreadsheet rows of which the second has no identifier.\<close>

definition three_rows :: "(string \<rightharpoonup> cell) list" where
  "three_rows = [[''Id NCR'' \<mapsto> CStr ''ATM001''],
                 [''COMENTARIO'' \<mapsto> CStr ''sin identificador''],
                 [''Id NCR'' \<mapsto> CStr ''ATM003'']]"

definition three_rows_sim :: "cell option list list" where
  "three_rows_sim = [[Some (CStr ''Accion''), Some (CStr ''Id NCR'')],
                     [Some (CStr ''VANDG''), Some (CStr ''ATM001'')],
                     [Some (CStr ''VANDG'')],
                     [Some (CStr ''VANDG''), Some (CStr ''ATM003'')]]"

text \<open>A reply that rejects the awaited promise.\<close>

definition is_throw :: "reply \<Rightarrow> bool" where
  "is_throw r = (case r of RThrow e \<Rightarrow> True | _ \<Rightarrow> False)"

text \<open>
  \<open>appends C w w'\<close>: from \<open>w\<close> to \<open>w'\<close> only calls from \<open>C\<close> were made and only log
  entries were appended to the session.
\<close>

definition appends :: "call set \<Rightarrow> world \<Rightarrow> world \<Rightarrow> bool" where
  "appends C w w' =
     (\<exists>cs ls. set cs \<subseteq> C \<and>
        w' = w\<lparr>hist := hist w @ cs,
               currentProcessing := (currentProcessing w)
                 \<lparr>logs := logs (currentProcessing w) @ ls\<rparr>\<rparr>)"

definition frame :: "call set \<Rightarrow> 'a act \<Rightarrow> bool" where
  "frame C f = (\<forall>w. appends C w (snd (f w)))"

text \<open>Calls that do not wait for a selector, and calls that do not close the browser.\<close>

definition no_wait :: "call set" where
  "no_wait = {c. \<forall>s. c \<noteq> WaitForSelector s}"

definition no_close :: "call set" where
  "no_close = {c. c \<noteq> BrowserClose}"

text \<open>
  \<open>yields P f\<close>: \<open>f\<close> never throws and its value satisfies \<open>P\<close>; \<open>fails f\<close>: \<open>f\<close>
  always throws.
\<close>

definition yields :: "('a \<Rightarrow> bool) \<Rightarrow> 'a act \<Rightarrow> bool" where
  "yields P f = (\<forall>w. \<exists>a. fst (f w) = Inr a \<and> P a)"

definition fails :: "'a act \<Rightarrow> bool" where
  "fails f = (\<forall>w. \<exists>e. fst (f w) = Inl e)"

text \<open>Worlds in which a call never, respectively always, rejects.\<close>

definition succeeds :: "env \<Rightarrow> call \<Rightarrow> bool" where
  "succeeds orc c = (\<forall>h. \<not> is_throw (orc h c))"

definition rejects :: "env \<Rightarrow> call \<Rightarrow> bool" where
  "rejects orc c = (\<forall>h. is_throw (orc h c))"


text \<open>
  A page on which the create and save buttons are found but no form field is: every
  wait for another selector times out.
\<close>

definition no_fields :: env where
  "no_fields h c = (case c of
                      WaitForSelector s \<Rightarrow>
                        (if s \<in> set createButtonSelectors \<union> set saveSelectors
                         then RUnit else RThrow ''TimeoutError'')
                    | Now \<Rightarrow> RStr ''2024-01-01T00:00:00.000Z''
                    | Evaluate s \<Rightarrow> RStr ''input''
                    | ToLocaleDateString d \<Rightarrow> RStr ''01/01/2024''
                    | ToLocaleTimeString d \<Rightarrow> RStr ''10:00''
                    | _ \<Rightarrow> RUnit)"

text \<open>A page without any save button.\<close>

definition no_save :: env where
  "no_save h c = (case c of
                    WaitForSelector s \<Rightarrow>
                      (if s \<in> set saveSelectors then RThrow ''TimeoutError'' else RUnit)
                  | Now \<Rightarrow> RStr ''2024-01-01T00:00:00.000Z''
                  | Evaluate s \<Rightarrow> RStr ''input''
                  | ToLocaleDateString d \<Rightarrow> RStr ''01/01/2024''
                  | ToLocaleTimeString d \<Rightarrow> RStr ''10:00''
                  | _ \<Rightarrow> RUnit)"

definition record1 :: arecord where
  "record1 = \<lparr>id_r = 1, tipo = CStr ''VANDG'', idNCR = CStr ''ATM001'',
              startDate = CStr ''2024-01-01 10:00'', endDate = CStr ''2024-01-01 12:00'',
              comentario = CStr ''Puerta forzada'', status = ''pending'', error = None\<rparr>"

text \<open>
  A background task is settled when its promise is resolved or rejected; otherwise its
  batch is active. At most one batch is active when all unsettled tasks coincide.
\<close>

definition settled :: "pc \<Rightarrow> bool" where
  "settled p = (p = ADone \<or> p = ARejected)"



text \<open>The servers after start-up, and after the upload of \<open>three_rows\<close>.\<close>

definition initial_system :: system where
  "initial_system = \<lparr>glob = initial_world, tasks = []\<rparr>"

definition initial_system_sim :: system_sim where
  "initial_system_sim = \<lparr>glob_sim = initial_world_sim, tasks_sim = []\<rparr>"

definition loaded_system :: system where
  "loaded_system =
     \<lparr>glob = snd (upload_excel ok_env (Sheet three_rows) initial_world), tasks = []\<rparr>"

definition valid_req :: start_req where
  "valid_req = \<lparr>req_credentials = Some \<lparr>username = Some ''operador'', password = Some ''secreto''\<rparr>,
                req_config = None\<rparr>"

definition two_records_sim :: "srecord list" where
  "two_records_sim =
     [\<lparr>id_s = 1, action = CStr ''VANDG'', ncrId = CStr ''ATM001'', startDate_s = CStr [],
       endDate_s = CStr [], comment = CStr [], status_s = ''pending'', result = None\<rparr>,
      \<lparr>id_s = 3, action = CStr ''VANDG'', ncrId = CStr ''ATM003'', startDate_s = CStr [],
       endDate_s = CStr [], comment = CStr [], status_s = ''pending'', result = None\<rparr>]"

definition valid_req_sim :: process_req where
  "valid_req_sim =
     \<lparr>req_config_sim = \<lparr>username_sim = Some ''operador'', password_sim = Some ''secreto'',
                         delayBetweenRecords = None\<rparr>,
      req_records = two_records_sim\<rparr>"



text \<open>The first \<open>i\<close> records have a terminal status.\<close>

definition prefix_terminal :: "nat \<Rightarrow> arecord list \<Rightarrow> bool" where
  "prefix_terminal i rs = (\<forall>j < i. terminal (status (rs ! j)))"

text \<open>
  The state of a batch whose background task has number \<open>k\<close>, where \<open>r0\<close> is the number
  of browsers closed before the batch began: every other task is settled, the browser
  of this batch has been closed once if the task is settled and had launched one, and
  the loop index bounds the processed count while every record before it is terminal.
\<close>

definition batch_inv :: "nat \<Rightarrow> nat \<Rightarrow> system \<Rightarrow> bool" where
  "batch_inv k r0 s =
     (k < length (tasks s)
      \<and> (\<forall>j < length (tasks s). j \<noteq> k \<longrightarrow> settled (pc_of (tasks s ! j)))
      \<and> releases (hist (glob s))
          = r0 + (if settled (pc_of (tasks s ! k)) \<and> browser (automation_of (tasks s ! k))
                  then 1 else 0)
      \<and> (pc_of (tasks s ! k) = ADone \<longrightarrow>
            \<not> isProcessing (currentProcessing (glob s))
            \<and> currentRecord (currentProcessing (glob s)) = None)
      \<and> (let cp = currentProcessing (glob s) in
          case pc_of (tasks s ! k) of
            AInit \<Rightarrow> processedRecords cp = 0 \<and> \<not> browser (automation_of (tasks s ! k))
          | ALogin \<Rightarrow> processedRecords cp = 0
          | ASearch i \<Rightarrow> i < length (records cp) \<and> currentRecord cp = Some i
                          \<and> processedRecords cp \<le> i \<and> prefix_terminal i (records cp)
          | ACreate i \<Rightarrow> i < length (records cp) \<and> currentRecord cp = Some i
                          \<and> processedRecords cp \<le> i \<and> prefix_terminal i (records cp)
          | ADelay i \<Rightarrow> i + 1 < length (records cp) \<and> currentRecord cp = Some i
                         \<and> processedRecords cp \<le> i \<and> prefix_terminal (i + 1) (records cp)
          | _ \<Rightarrow> (\<exists>i \<le> length (records cp).
                     processedRecords cp \<le> i \<and> prefix_terminal i (records cp))))"

text \<open>An upper bound on the steps a task still takes, for a batch of \<open>n\<close> records.\<close>

definition remaining :: "nat \<Rightarrow> pc \<Rightarrow> nat" where
  "remaining n p =
     (case p of
        AInit \<Rightarrow> 3 * n + 3
      | ALogin \<Rightarrow> 3 * n + 2
      | ASearch i \<Rightarrow> 3 * (n - i) + 1
      | ACreate i \<Rightarrow> 3 * (n - i)
      | ADelay i \<Rightarrow> 3 * (n - i) - 1
      | AClose \<Rightarrow> 1
      | ADone \<Rightarrow> 0
      | ARejected \<Rightarrow> 0)"

definition is_start :: "event \<Rightarrow> bool" where
  "is_start ev = (case ev of Start r \<Rightarrow> True | _ \<Rightarrow> False)"

text \<open>A request with an inter-record delay, and a world in which no browser can be launched.\<close>

definition delay_req :: start_req where
  "delay_req = \<lparr>req_credentials = Some \<lparr>username = Some ''operador'', password = Some ''secreto''\<rparr>,
                req_config = Some \<lparr>delay = Some 1000\<rparr>\<rparr>"

definition no_browser :: env where
  "no_browser h c = (case c of
                       Launch \<Rightarrow> RThrow ''Failed to launch the browser process''
                     | Now \<Rightarrow> RStr ''2024-01-01T00:00:00.000Z''
                     | _ \<Rightarrow> RUnit)"


text \<open>
  What a status read shows of a system with one background task, together with the
  program counter and the configuration of that task; and how a run moves it in a
  world where every call succeeds (\<open>astep\<close>, shown below to agree with \<open>step\<close>).
\<close>

record aview =
  a_processing :: bool
  a_current :: "nat option"
  a_processed :: nat
  a_status :: "string list"
  a_pc :: pc
  a_config :: "config option"

definition view :: "system \<Rightarrow> aview" where
  "view s =
     \<lparr>a_processing = isProcessing (currentProcessing (glob s)),
      a_current = currentRecord (currentProcessing (glob s)),
      a_processed = processedRecords (currentProcessing (glob s)),
      a_status = map status (records (currentProcessing (glob s))),
      a_pc = pc_of (tasks s ! 0),
      a_config = config_of (tasks s ! 0)\<rparr>"

definition all_ok :: "env \<Rightarrow> bool" where
  "all_ok orc = (\<forall>c. succeeds orc c)"

definition ahead :: "nat \<Rightarrow> aview \<Rightarrow> aview" where
  "ahead i v = (if i < length (a_status v) then v\<lparr>a_current := Some i, a_pc := ASearch i\<rparr>
                else v\<lparr>a_pc := AClose\<rparr>)"

definition adelay :: "config option \<Rightarrow> bool" where
  "adelay cfg = (case cfg of None \<Rightarrow> False
                 | Some c \<Rightarrow> (case delay c of None \<Rightarrow> False | Some d \<Rightarrow> d \<noteq> 0))"

definition astep :: "aview \<Rightarrow> aview" where
  "astep v =
     (case a_pc v of
        AInit \<Rightarrow> v\<lparr>a_pc := ALogin\<rparr>
      | ALogin \<Rightarrow> ahead 0 v
      | ASearch i \<Rightarrow> v\<lparr>a_pc := ACreate i\<rparr>
      | ACreate i \<Rightarrow>
          (if adelay (a_config v) \<and> i + 1 < length (a_status v)
           then v\<lparr>a_status := (a_status v)[i := ''completed''], a_pc := ADelay i\<rparr>
           else ahead (i + 1) (v\<lparr>a_status := (a_status v)[i := ''completed''],
                                  a_processed := a_processed v + 1\<rparr>))
      | ADelay i \<Rightarrow> ahead (i + 1) (v\<lparr>a_processed := a_processed v + 1\<rparr>)
      | AClose \<Rightarrow> v\<lparr>a_pc := ADone, a_processing := False, a_current := None\<rparr>
      | ADone \<Rightarrow> v
      | ARejected \<Rightarrow> v)"

definition aevent :: "aview \<Rightarrow> event \<Rightarrow> aview" where
  "aevent v ev = (case ev of
                    Tick k \<Rightarrow> (if k = 0 then astep v else v)
                  | Stop \<Rightarrow> v\<lparr>a_processing := False\<rparr>
                  | Start r \<Rightarrow> v)"

text \<open>The same notions for the simulated server, whose records belong to the task.\<close>

definition prefix_terminal_sim :: "nat \<Rightarrow> srecord list \<Rightarrow> bool" where
  "prefix_terminal_sim i rs = (\<forall>j < i. terminal (status_s (rs ! j)))"

definition terminal_count_sim :: "task_sim \<Rightarrow> nat" where
  "terminal_count_sim t = length (filter (\<lambda>r. terminal (status_s r)) (records_of t))"

definition is_process :: "event_sim \<Rightarrow> bool" where
  "is_process ev = (case ev of Process p \<Rightarrow> True | _ \<Rightarrow> False)"

definition batch_inv_sim :: "nat \<Rightarrow> system_sim \<Rightarrow> bool" where
  "batch_inv_sim k s =
     (k < length (tasks_sim s)
      \<and> (\<forall>j < length (tasks_sim s). j \<noteq> k \<longrightarrow> pc_sim_of (tasks_sim s ! j) = SDone)
      \<and> (let st = processingState (glob_sim s); rs = records_of (tasks_sim s ! k) in
          case pc_sim_of (tasks_sim s ! k) of
            SLogin \<Rightarrow> processedCount st = 0
          | SSearch i \<Rightarrow> i < length rs \<and> currentRecord_sim st = Some (k, i)
                          \<and> processedCount st = i \<and> prefix_terminal_sim i rs
          | SCreate i \<Rightarrow> i < length rs \<and> currentRecord_sim st = Some (k, i)
                          \<and> processedCount st = i \<and> prefix_terminal_sim i rs
          | SDelay i \<Rightarrow> i < length rs \<and> currentRecord_sim st = Some (k, i)
                         \<and> processedCount st = i \<and> prefix_terminal_sim (i + 1) rs
          | SDone \<Rightarrow> \<not> isProcessing_sim st \<and> currentRecord_sim st = None
                      \<and> processedCount st = length rs))"

definition remaining_sim :: "nat \<Rightarrow> pc_sim \<Rightarrow> nat" where
  "remaining_sim n p =
     (case p of
        SLogin \<Rightarrow> 3 * n + 1
      | SSearch i \<Rightarrow> 3 * (n - i)
      | SCreate i \<Rightarrow> 3 * (n - i) - 1
      | SDelay i \<Rightarrow> 3 * (n - i) - 2
      | SDone \<Rightarrow> 0)"

text \<open>The number of steps that a schedule gives to task \<open>k\<close>.\<close>

definition ticks :: "nat \<Rightarrow> event list \<Rightarrow> nat" where
  "ticks k evs = length (filter (\<lambda>ev. ev = Tick k) evs)"

definition ticks_sim :: "nat \<Rightarrow> event_sim list \<Rightarrow> nat" where
  "ticks_sim k evs = length (filter (\<lambda>ev. ev = Tick_sim k) evs)"

text \<open>
  A world in which the browser has crashed after its launch: the navigation of the login
  and the closing of the browser are rejected.
\<close>

definition browser_crashed :: env where
  "browser_crashed h c = (case c of
                            Goto u \<Rightarrow> RThrow ''Navigation failed because browser has disconnected''
                          | BrowserClose \<Rightarrow> RThrow ''Protocol error: Target closed''
                          | Now \<Rightarrow> RStr ''2024-01-01T00:00:00.000Z''
                          | _ \<Rightarrow> RUnit)"

section \<open>Properties\<close>

subsection \<open>Log sink\<close>

lemma slice_last_all: "length xs \<le> n \<Longrightarrow> slice_last n xs = xs"
  by (simp add: slice_last_def)

lemma slice_last_snoc:
  "slice_last n (slice_last n xs @ [x]) = slice_last n (xs @ [x])"
  by (cases "length xs \<le> n") (auto simp: slice_last_def Suc_diff_le)

lemma slice_last_append:
  "slice_last n (slice_last n xs @ ys) = slice_last n (xs @ ys)"
  by (cases "length xs \<le> n") (auto simp: slice_last_def ac_simps)

lemma length_slice_last: "length (slice_last n xs) = min n (length xs)"
  by (simp add: slice_last_def)

lemma addLog_logs:
  "\<exists>e. logs (currentProcessing (addLog orc m t w)) = logs (currentProcessing w) @ [e]
       \<and> entry_of e = (m, t)"
  by (simp add: addLog_def now_def perform_def entry_of_def split: prod.splits reply.splits)

lemma emit_logs:
  "\<exists>new. logs (currentProcessing (emit orc es w)) = logs (currentProcessing w) @ new
         \<and> map entry_of new = es"
proof (induction es arbitrary: w)
  case Nil
  then show ?case by simp
next
  case (Cons a es)
  obtain m t where a: "a = (m, t)" by (cases a)
  obtain e where e: "logs (currentProcessing (addLog orc m t w)) = logs (currentProcessing w) @ [e]"
    "entry_of e = (m, t)" using addLog_logs by blast
  obtain new where n: "logs (currentProcessing (emit orc es (addLog orc m t w)))
       = logs (currentProcessing (addLog orc m t w)) @ new" "map entry_of new = es"
    using Cons.IH by blast
  show ?case
    by (rule exI [of _ "e # new"]) (simp add: a e n)
qed

lemma addLog_sim_logs:
  "\<exists>e. logs_sim (processingState (addLog_sim orc m t w))
          = slice_last 100 (logs_sim (processingState w) @ [e])
       \<and> entry_of e = (m, t)"
  by (auto simp: addLog_sim_def now_sim_def perform_sim_def entry_of_def Let_def slice_last_all
           split: prod.splits reply.splits)

lemma emit_sim_logs:
  "\<exists>new. logs_sim (processingState (emit_sim orc es w))
            = (if es = [] then logs_sim (processingState w)
               else slice_last 100 (logs_sim (processingState w) @ new))
         \<and> map entry_of new = es"
proof (induction es arbitrary: w)
  case Nil
  then show ?case by simp
next
  case (Cons a es)
  obtain m t where a: "a = (m, t)" by (cases a)
  obtain e where e: "logs_sim (processingState (addLog_sim orc m t w))
      = slice_last 100 (logs_sim (processingState w) @ [e])"
    "entry_of e = (m, t)" using addLog_sim_logs by blast
  obtain new where n: "logs_sim (processingState (emit_sim orc es (addLog_sim orc m t w)))
       = (if es = [] then logs_sim (processingState (addLog_sim orc m t w))
          else slice_last 100 (logs_sim (processingState (addLog_sim orc m t w)) @ new))"
     "map entry_of new = es"
    using Cons.IH by blast
  show ?case
  proof (rule exI [of _ "e # new"])
    have "slice_last 100 (slice_last 100 (logs_sim (processingState w) @ [e]) @ new)
          = slice_last 100 ((logs_sim (processingState w) @ [e]) @ new)"
      by (rule slice_last_append)
    with n(2) show "logs_sim (processingState (emit_sim orc (a # es) w))
        = (if a # es = [] then logs_sim (processingState w)
           else slice_last 100 (logs_sim (processingState w) @ e # new))
        \<and> map entry_of (e # new) = a # es"
      by (auto simp: a e n(1))
  qed
qed

lemma addLog_eq:
  "addLog orc m t w =
     w\<lparr>hist := hist w @ [Now],
       currentProcessing := (currentProcessing w)\<lparr>logs := logs (currentProcessing w) @
          [\<lparr>timestamp = str_of (orc (hist w) Now), message = m, type = t\<rparr>]\<rparr>\<rparr>"
  by (simp add: addLog_def now_def perform_def str_of_def split: prod.splits reply.splits)

lemma addLog_sim_eq:
  "addLog_sim orc m t w =
     w\<lparr>hist_sim := hist_sim w @ [Now],
       processingState := (processingState w)\<lparr>logs_sim := slice_last 100 (logs_sim (processingState w) @
          [\<lparr>timestamp = str_of (orc (hist_sim w) Now), message = m, type = t\<rparr>])\<rparr>\<rparr>"
  by (auto simp: addLog_sim_def now_sim_def perform_sim_def str_of_def Let_def slice_last_all
           split: prod.splits reply.splits)

text \<open>
  C9, as stated, fails for the Puppeteer server: its \<open>addLog\<close> (lines 54-62) only
  pushes, so after 101 entries all 101 are stored, more than the capacity 100 of the
  simulated server and more than the 50 entries that \<open>GET /api/logs\<close> returns.
\<close>

theorem addLog_unbounded_counterexample:
  "length (logs (currentProcessing
      (emit ok_env (replicate 101 (''entry'', ''info'')) initial_world))) = 101"
proof -
  obtain new where new:
    "logs (currentProcessing (emit ok_env (replicate 101 (''entry'', ''info'')) initial_world))
       = logs (currentProcessing initial_world) @ new"
    "map entry_of new = replicate 101 (''entry'', ''info'')"
    using emit_logs by blast
  from new(2) have "length new = 101"
    by (metis length_map length_replicate)
  with new(1) show ?thesis by (simp add: initial_world_def)
qed

text \<open>
  C9 (amended). The log of the simulated server is an append-only ring of capacity
  100: after any sequence of emissions it holds exactly the last 100 entries of the old
  log followed by the new entries, so the oldest are evicted first and the newest are
  intact, and its length is the smaller of 100 and the number of entries emitted so
  far. The log of the Puppeteer server is append-only and unbounded; only the read
  \<open>GET /api/logs\<close> is bounded, returning the last 50 entries, oldest first.
\<close>

theorem log_retention:
  assumes "length (logs_sim (processingState ws)) \<le> 100"
  shows "(\<exists>new. map entry_of new = es
            \<and> logs_sim (processingState (emit_sim orc es ws))
                = slice_last 100 (logs_sim (processingState ws) @ new))
       \<and> length (logs_sim (processingState (emit_sim orc es ws)))
           = min 100 (length (logs_sim (processingState ws)) + length es)
       \<and> (\<exists>new. map entry_of new = es
            \<and> logs (currentProcessing (emit orc es w)) = logs (currentProcessing w) @ new)
       \<and> get_logs (emit orc es w) = slice_last 50 (logs (currentProcessing (emit orc es w)))"
proof -
  obtain new where new: "map entry_of new = es"
    "logs_sim (processingState (emit_sim orc es ws))
       = (if es = [] then logs_sim (processingState ws)
          else slice_last 100 (logs_sim (processingState ws) @ new))"
    using emit_sim_logs by blast
  have len: "length new = length es" using new(1) by (metis length_map)
  have eq: "logs_sim (processingState (emit_sim orc es ws))
              = slice_last 100 (logs_sim (processingState ws) @ new)"
  proof (cases "es = []")
    case True
    with new(1) have "new = []" by simp
    with True new(2) assms show ?thesis by (simp add: slice_last_all)
  next
    case False
    with new(2) show ?thesis by simp
  qed
  have "length (logs_sim (processingState (emit_sim orc es ws)))
          = min 100 (length (logs_sim (processingState ws)) + length es)"
    by (simp add: eq length_slice_last len)
  moreover have "\<exists>new. map entry_of new = es
      \<and> logs (currentProcessing (emit orc es w)) = logs (currentProcessing w) @ new"
    using emit_logs [of orc es w] by blast
  ultimately show ?thesis using new(1) eq by (auto simp: get_logs_def)
qed

theorem log_retention_witness:
  "length (logs_sim (processingState initial_world_sim)) \<le> 100
   \<and> length (logs_sim (processingState
        (emit_sim ok_env (replicate 101 (''entry'', ''info'')) initial_world_sim))) = 100"
  using log_retention [of initial_world_sim "replicate 101 (''entry'', ''info'')" ok_env initial_world]
  by (simp add: initial_world_sim_def)

subsection \<open>Spreadsheet intake\<close>

lemma row_record_id: "id_r (row_record (i, row)) = i + 1"
  by (simp add: row_record_def)

lemma parse_excel_member:
  assumes "r \<in> set (parse_excel data)"
  shows "truthy (idNCR r) \<and> idNCR r \<noteq> CStr [] \<and> 1 \<le> id_r r \<and> id_r r \<le> length data
         \<and> r = row_record (id_r r - 1, data ! (id_r r - 1))"
proof -
  from assms obtain i where i: "i < length data" "r = row_record (i, data ! i)" "truthy (idNCR r)"
    by (auto simp: parse_excel_def in_set_enumerate_eq)
  have "idNCR r \<noteq> CStr []" using i(3) by (auto simp: truthy_def)
  with i show ?thesis by (simp add: row_record_id)
qed

lemma sorted_fst_enumerate: "sorted_wrt (\<lambda>a b. fst a < fst b) (enumerate n xs)"
proof -
  have "sorted_wrt (<) (map fst (enumerate n xs))" by simp
  then show ?thesis by (simp only: sorted_wrt_map)
qed

lemma parse_excel_ascending: "sorted_wrt (<) (map id_r (parse_excel data))"
proof -
  have "sorted_wrt (\<lambda>a b. id_r (row_record a) < id_r (row_record b)) (enumerate 0 data)"
    using sorted_fst_enumerate [of 0 data]
    by (rule sorted_wrt_mono_rel [rotated]) (auto simp: row_record_id)
  then have "sorted_wrt (<) (map id_r (map row_record (enumerate 0 data)))"
    by (simp add: sorted_wrt_map)
  then show ?thesis
    unfolding parse_excel_def by (simp add: sorted_wrt_filter sorted_wrt_map)
qed

lemma parse_excel_complete:
  "i < length data \<Longrightarrow> truthy (or_else ((data ! i) ''Id NCR'') (CStr [])) \<Longrightarrow>
   row_record (i, data ! i) \<in> set (parse_excel data)"
  by (auto simp: parse_excel_def in_set_enumerate_eq row_record_def intro!: image_eqI [of _ _ "(i, data ! i)"])

lemma upload_excel_state:
  "records (currentProcessing (snd (upload_excel orc (Sheet data) w))) = parse_excel data
   \<and> totalRecords (currentProcessing (snd (upload_excel orc (Sheet data) w))) = length (parse_excel data)"
  by (simp add: upload_excel_def Let_def addLog_eq await_def perform_def split: prod.splits reply.splits)

lemma filter_sim_Inr:
  "filter_sim rs = Inr out \<Longrightarrow> out = filter (\<lambda>r. keep_sim r = Inr True) rs"
  by (induction rs arbitrary: out) (auto split: sum.splits if_splits)

lemma row_record_sim_id: "id_s (row_record_sim (i, row)) = i + 1"
  by (simp add: row_record_sim_def)

lemma keep_sim_True:
  "keep_sim r = Inr True \<Longrightarrow> \<exists>s. ncrId r = CStr s \<and> trim s \<noteq> [] \<and> s \<noteq> []"
  by (auto simp: keep_sim_def truthy_def split: if_splits cell.splits)

lemma parse_sim_member:
  assumes "parse_sim jsonData = Inr recs" "r \<in> set recs"
  shows "(\<exists>s. ncrId r = CStr s \<and> trim s \<noteq> [] \<and> s \<noteq> []) \<and> 1 \<le> id_s r \<and> id_s r < length jsonData
         \<and> r = row_record_sim (id_s r - 1, jsonData ! id_s r)"
proof -
  from assms have r: "r \<in> set (map row_record_sim (enumerate 0 (drop 1 jsonData)))" "keep_sim r = Inr True"
    by (auto simp: parse_sim_def dest!: filter_sim_Inr)
  then obtain i where i: "i < length jsonData - 1" "r = row_record_sim (i, drop 1 jsonData ! i)"
    by (auto simp: in_set_enumerate_eq)
  have "drop 1 jsonData ! i = jsonData ! (i + 1)" using i(1) by simp
  with i keep_sim_True [OF r(2)] show ?thesis by (auto simp: row_record_sim_id)
qed

lemma parse_sim_ascending:
  assumes "parse_sim jsonData = Inr recs"
  shows "sorted_wrt (<) (map id_s recs)"
proof -
  have "sorted_wrt (\<lambda>a b. id_s (row_record_sim a) < id_s (row_record_sim b)) (enumerate 0 (drop 1 jsonData))"
    using sorted_fst_enumerate [of 0 "drop 1 jsonData"]
    by (rule sorted_wrt_mono_rel [rotated]) (auto simp: row_record_sim_id)
  then have "sorted_wrt (<) (map id_s (map row_record_sim (enumerate 0 (drop 1 jsonData))))"
    by (simp add: sorted_wrt_map)
  moreover have "recs = filter (\<lambda>r. keep_sim r = Inr True) (map row_record_sim (enumerate 0 (drop 1 jsonData)))"
    using assms by (auto simp: parse_sim_def dest!: filter_sim_Inr)
  ultimately show ?thesis by (simp add: sorted_wrt_filter sorted_wrt_map)
qed

lemma three_rows_eval:
  "map id_r (parse_excel three_rows) = [1, 3]"
  by (simp add: parse_excel_def three_rows_def row_record_def or_else_def truthy_def enumerate_eq_zip upt_rec)

lemma trimStart_None: "strip_one ps s = None \<Longrightarrow> trimStart ps s = s"
  by (subst trimStart.simps) simp

lemma trim_identifiers: "trim ''ATM001'' = ''ATM001''" "trim ''ATM003'' = ''ATM003''"
  by (simp_all add: trim_def trimStart_None white_space_def)

text \<open>An identifier that consists of a no-break space (U+00A0) only is trimmed to nothing.\<close>

lemma trim_no_break_space: "trim [CHR 0xC2, CHR 0xA0] = []"
proof -
  have "trimStart white_space [CHR 0xC2, CHR 0xA0] = trimStart white_space []"
    by (subst trimStart.simps) (simp add: white_space_def)
  then show ?thesis by (simp add: trim_def trimStart_None white_space_def)
qed

lemma three_rows_sim_eval:
  "\<exists>recs. parse_sim three_rows_sim = Inr recs \<and> map id_s recs = [1, 3]"
  by (simp add: parse_sim_def three_rows_sim_def row_record_sim_def or_else_def truthy_def at_def
      keep_sim_def trim_identifiers enumerate_eq_zip upt_rec)

text \<open>
  C8, as stated, fails in its example: the index is assigned by \<open>map\<close> before
  \<open>filter\<close> removes the rows without identifier. Three rows delivered by
  \<open>sheet_to_json\<close>, of which the second has a comment but no identifier, give the
  indices 1 and 3, not 1 and 2 (both servers).
\<close>

theorem upload_indices_counterexample:
  "map id_r (records (currentProcessing
      (snd (upload_excel ok_env (Sheet three_rows) initial_world)))) = [1, 3]
   \<and> map id_r (records (currentProcessing
      (snd (upload_excel ok_env (Sheet three_rows) initial_world)))) \<noteq> [1, 2]
   \<and> (\<exists>recs. parse_sim three_rows_sim = Inr recs \<and> map id_s recs = [1, 3])"
  using three_rows_sim_eval by (simp add: upload_excel_state three_rows_eval)

text \<open>
  C8 (amended). No record with an empty external identifier appears in the batch (for
  the simulated server, none whose identifier is white space only), and every surviving
  record carries the 1-based position of its row in the list that \<open>sheet_to_json\<close>
  returns (for the simulated server: among the elements after the header row), so the
  indices are strictly ascending but have a gap wherever the filter dropped a delivered
  row; the session's \<open>records\<close> and \<open>totalRecords\<close> are the filtered list and its
  length. Three delivered rows of which the second has other cells but no identifier
  give two records with indices 1 and 3 and \<open>totalRecords = 2\<close>. (A sheet row that
  the library does not deliver, such as an entirely blank row under its default
  options, takes no position.)
\<close>

theorem upload_filter_positions:
  "(\<forall>r \<in> set (parse_excel data).
       truthy (idNCR r) \<and> idNCR r \<noteq> CStr [] \<and> 1 \<le> id_r r \<and> id_r r \<le> length data
       \<and> r = row_record (id_r r - 1, data ! (id_r r - 1)))
   \<and> sorted_wrt (<) (map id_r (parse_excel data))
   \<and> records (currentProcessing (snd (upload_excel orc (Sheet data) w))) = parse_excel data
   \<and> totalRecords (currentProcessing (snd (upload_excel orc (Sheet data) w)))
       = length (parse_excel data)
   \<and> (parse_sim jsonData = Inr recs \<longrightarrow>
        (\<forall>r \<in> set recs.
            (\<exists>s. ncrId r = CStr s \<and> trim s \<noteq> [] \<and> s \<noteq> [])
            \<and> 1 \<le> id_s r \<and> id_s r < length jsonData
            \<and> r = row_record_sim (id_s r - 1, jsonData ! id_s r))
        \<and> sorted_wrt (<) (map id_s recs))"
  using parse_excel_member [of _ data] parse_excel_ascending [of data]
    upload_excel_state [of orc data w]
    parse_sim_member [of jsonData recs] parse_sim_ascending [of jsonData recs]
  by blast

theorem upload_filter_positions_witness:
  "map id_r (parse_excel three_rows) = [1, 3]
   \<and> list_all (\<lambda>r. idNCR r \<noteq> CStr [] \<and> id_r r \<le> 3) (parse_excel three_rows)
   \<and> totalRecords (currentProcessing
        (snd (upload_excel ok_env (Sheet three_rows) initial_world))) = 2
   \<and> (\<exists>recs. parse_sim three_rows_sim = Inr recs
         \<and> list_all (\<lambda>r. ncrId r \<noteq> CStr [] \<and> id_s r < 4) recs)"
proof -
  obtain recs where recs: "parse_sim three_rows_sim = Inr recs"
    using three_rows_sim_eval by blast
  have len: "length three_rows = 3" "length three_rows_sim = 4"
    by (simp_all add: three_rows_def three_rows_sim_def)
  have "length (parse_excel three_rows) = 2"
    using three_rows_eval by (metis length_map length_Cons list.size(3) numeral_2_eq_2)
  with upload_filter_positions [of three_rows ok_env initial_world three_rows_sim recs] recs len
  show ?thesis by (auto simp: three_rows_eval list_all_iff)
qed

subsection \<open>Framing: what a method of the automation class can change\<close>


lemma appends_refl [simp]: "appends C w w"
  unfolding appends_def by (rule exI [of _ "[]"], rule exI [of _ "[]"]) simp

lemma appends_trans: "appends C w w1 \<Longrightarrow> appends C w1 w2 \<Longrightarrow> appends C w w2"
proof -
  assume "appends C w w1" "appends C w1 w2"
  then obtain cs ls cs' ls' where
    1: "set cs \<subseteq> C" "w1 = w\<lparr>hist := hist w @ cs,
               currentProcessing := (currentProcessing w)
                 \<lparr>logs := logs (currentProcessing w) @ ls\<rparr>\<rparr>"
    and 2: "set cs' \<subseteq> C" "w2 = w1\<lparr>hist := hist w1 @ cs',
               currentProcessing := (currentProcessing w1)
                 \<lparr>logs := logs (currentProcessing w1) @ ls'\<rparr>\<rparr>"
    unfolding appends_def by blast
  show ?thesis
    unfolding appends_def
    by (rule exI [of _ "cs @ cs'"], rule exI [of _ "ls @ ls'"]) (simp add: 1 2)
qed

lemma appends_mono: "appends C w w' \<Longrightarrow> C \<subseteq> D \<Longrightarrow> appends D w w'"
  unfolding appends_def by blast

lemma appends_addLog: "Now \<in> C \<Longrightarrow> appends C w (addLog orc m t w)"
  unfolding appends_def addLog_eq
  by (rule exI [of _ "[Now]"], rule exI [of _ "[\<lparr>timestamp = str_of (orc (hist w) Now), message = m, type = t\<rparr>]"]) simp

lemma await_eq:
  "await orc c w =
     (case orc (hist w) c of RThrow e \<Rightarrow> Inl e | r \<Rightarrow> Inr r, w\<lparr>hist := hist w @ [c]\<rparr>)"
  by (simp add: await_def perform_def split: reply.splits)

lemma snd_await [simp]: "snd (await orc c w) = w\<lparr>hist := hist w @ [c]\<rparr>"
  by (simp add: await_eq)

lemma fst_await_Inl: "(\<exists>e. fst (await orc c w) = Inl e) = is_throw (orc (hist w) c)"
  by (simp add: await_eq is_throw_def split: reply.splits)

lemma appends_await: "c \<in> C \<Longrightarrow> appends C w (snd (await orc c w))"
  unfolding appends_def snd_await
  by (rule exI [of _ "[c]"], rule exI [of _ "[]"]) simp

lemma frame_ret [intro!]: "frame C (ret a)"
  by (simp add: frame_def ret_def)

lemma frame_throw [intro!]: "frame C (throw e)"
  by (simp add: frame_def throw_def)

lemma frame_await [intro]: "c \<in> C \<Longrightarrow> frame C (await orc c)"
  unfolding frame_def by (blast intro: appends_await)

lemma frame_say [intro]: "Now \<in> C \<Longrightarrow> frame C (say orc m t)"
  by (simp add: frame_def say_def appends_addLog)

lemma frame_andThen [intro!]:
  assumes "frame C m" "\<And>a. frame C (f a)"
  shows "frame C (andThen m f)"
  unfolding frame_def
proof
  fix w
  show "appends C w (snd (andThen m f w))"
  proof (cases "m w")
    case (Pair r w')
    have 1: "appends C w w'" using assms(1) Pair by (auto simp: frame_def dest: spec [of _ w])
    show ?thesis
    proof (cases r)
      case (Inl e)
      with Pair 1 show ?thesis by (simp add: andThen_def)
    next
      case (Inr a)
      have "appends C w' (snd (f a w'))" using assms(2) by (simp add: frame_def)
      with Pair Inr 1 show ?thesis by (auto simp: andThen_def intro: appends_trans)
    qed
  qed
qed

lemma frame_try_catch [intro!]:
  assumes "frame C body" "\<And>e. frame C (handler e)"
  shows "frame C (try_catch body handler)"
  unfolding frame_def
proof
  fix w
  show "appends C w (snd (try_catch body handler w))"
  proof (cases "body w")
    case (Pair r w')
    have 1: "appends C w w'" using assms(1) Pair by (auto simp: frame_def dest: spec [of _ w])
    show ?thesis
    proof (cases r)
      case (Inr a)
      with Pair 1 show ?thesis by (simp add: try_catch_def)
    next
      case (Inl e)
      have "appends C w' (snd (handler e w'))" using assms(2) by (simp add: frame_def)
      with Pair Inl 1 show ?thesis by (auto simp: try_catch_def intro: appends_trans)
    qed
  qed
qed

lemma frame_if [intro!]: "frame C a \<Longrightarrow> frame C b \<Longrightarrow> frame C (if c then a else b)"
  by simp

lemma frameD: "frame C f \<Longrightarrow> appends C w (snd (f w))"
  by (simp add: frame_def)

lemma frame_mono: "frame C f \<Longrightarrow> C \<subseteq> D \<Longrightarrow> frame D f"
  unfolding frame_def by (blast intro: appends_mono)

lemma waited_append [simp]: "waited (xs @ ys) = waited xs @ waited ys"
  by (induction xs rule: waited.induct) simp_all

lemma waited_no_wait: "set cs \<subseteq> no_wait \<Longrightarrow> waited cs = []"
  by (induction cs rule: waited.induct) (auto simp: no_wait_def)

lemma appends_waited: "appends no_wait w w' \<Longrightarrow> waited (hist w') = waited (hist w)"
  by (auto simp: appends_def waited_no_wait)

lemma releases_append [simp]: "releases (xs @ ys) = releases xs + releases ys"
  by (simp add: releases_def)

lemma appends_releases: "appends no_close w w' \<Longrightarrow> releases (hist w') = releases (hist w)"
  by (auto simp: appends_def releases_def no_close_def filter_empty_conv)

lemma appends_session:
  assumes "appends C w w'"
  shows "isProcessing (currentProcessing w') = isProcessing (currentProcessing w)"
    "currentRecord (currentProcessing w') = currentRecord (currentProcessing w)"
    "totalRecords (currentProcessing w') = totalRecords (currentProcessing w)"
    "processedRecords (currentProcessing w') = processedRecords (currentProcessing w)"
    "records (currentProcessing w') = records (currentProcessing w)"
  using assms by (auto simp: appends_def)

lemmas frame_rules = frame_ret frame_throw frame_andThen frame_try_catch frame_if
  frame_await frame_say

lemma frame_login: "frame no_close (login orc au)"
  unfolding login_def by (intro frame_rules) (simp_all add: no_close_def)

lemma frame_searchAndSelectATM: "frame no_close (searchAndSelectATM orc i)"
  unfolding searchAndSelectATM_def by (intro frame_rules) (simp_all add: no_close_def)

text \<open>What follows the wait in one attempt makes no further wait.\<close>

lemma frame_fillField_try: "frame (no_close \<inter> (no_wait \<union> {WaitForSelector s})) (fillField_try orc f v s)"
  unfolding fillField_try_def by (intro frame_rules) (simp_all add: no_close_def no_wait_def)

lemma fillField_loop_appends:
  "appends (no_close \<inter> (no_wait \<union> WaitForSelector ` set sels)) w (snd (fillField_loop orc f v sels w))"
proof (induction sels arbitrary: w)
  case Nil
  then show ?case by simp
next
  case (Cons s sels)
  let ?C = "no_close \<inter> (no_wait \<union> WaitForSelector ` set (s # sels))"
  obtain r w1 where t: "fillField_try orc f v s w = (r, w1)" by (cases "fillField_try orc f v s w")
  have "appends (no_close \<inter> (no_wait \<union> {WaitForSelector s})) w w1"
    using frameD [OF frame_fillField_try [of s orc f v], of w] t by simp
  then have 1: "appends ?C w w1" by (rule appends_mono) auto
  show ?case
  proof (cases r)
    case (Inr u)
    with t 1 show ?thesis by simp
  next
    case (Inl e)
    have "appends (no_close \<inter> (no_wait \<union> WaitForSelector ` set sels)) w1 (snd (fillField_loop orc f v sels w1))"
      by (rule Cons.IH)
    then have "appends ?C w1 (snd (fillField_loop orc f v sels w1))" by (rule appends_mono) auto
    with t Inl 1 show ?thesis by (auto intro: appends_trans)
  qed
qed

lemma frame_fillField_body:
  "frame no_close (\<lambda>w. case fillField_loop orc f v sels w of
               (True, w') \<Rightarrow> (Inr (), w')
             | (False, w') \<Rightarrow> say orc msg ty w')"
  unfolding frame_def
proof
  fix w
  obtain b w1 where l: "fillField_loop orc f v sels w = (b, w1)"
    by (cases "fillField_loop orc f v sels w")
  have 1: "appends no_close w w1"
    using fillField_loop_appends [of sels w orc f v] l
    by (auto intro: appends_mono)
  have "appends no_close w1 (snd (say orc msg ty w1))"
    by (rule frameD) (auto simp: no_close_def)
  with 1 l show "appends no_close w (snd (case fillField_loop orc f v sels w of
               (True, w') \<Rightarrow> (Inr (), w')
             | (False, w') \<Rightarrow> say orc msg ty w'))"
    by (cases b) (auto intro: appends_trans)
qed

lemma frame_fillField: "frame no_close (fillField orc f v)"
  unfolding fillField_def
  by (intro frame_rules frame_fillField_body) (simp_all add: no_close_def)

lemma frame_fillDateField: "frame no_close (fillDateField orc f d)"
  unfolding fillDateField_def
  by (intro frame_rules frame_fillField) (simp_all add: no_close_def)

lemma frame_fillIncidentForm: "frame no_close (fillIncidentForm orc r)"
  unfolding fillIncidentForm_def
  by (intro frame_rules frame_fillField frame_fillDateField) (simp_all add: no_close_def)

subsection \<open>Methods that never throw, methods that always throw\<close>


lemma yields_ret: "P a \<Longrightarrow> yields P (ret a)"
  by (simp add: yields_def ret_def)

lemma yields_say: "P () \<Longrightarrow> yields P (say orc m t)"
  by (simp add: yields_def say_def)

lemma yields_await: "succeeds orc c \<Longrightarrow> yields (\<lambda>_. True) (await orc c)"
  by (auto simp: yields_def succeeds_def await_eq is_throw_def split: reply.splits)

lemma yields_andThen:
  assumes "yields (\<lambda>_. True) m" "\<And>a. yields P (f a)"
  shows "yields P (andThen m f)"
  unfolding yields_def
proof
  fix w
  obtain a where a: "fst (m w) = Inr a" using assms(1) by (auto simp: yields_def)
  obtain b where b: "fst (f a (snd (m w))) = Inr b" "P b" using assms(2) by (auto simp: yields_def)
  show "\<exists>b. fst (andThen m f w) = Inr b \<and> P b"
    using a b by (cases "m w") (auto simp: andThen_def)
qed

lemma yields_try_catch_handler:
  assumes "\<And>e. yields P (h e)" "\<And>w a. fst (body w) = Inr a \<Longrightarrow> P a"
  shows "yields P (try_catch body h)"
  unfolding yields_def
proof
  fix w
  show "\<exists>b. fst (try_catch body h w) = Inr b \<and> P b"
  proof (cases "body w")
    case (Pair r w')
    show ?thesis
    proof (cases r)
      case (Inl e)
      obtain b where "fst (h e w') = Inr b" "P b" using assms(1) by (auto simp: yields_def)
      with Pair Inl show ?thesis by (simp add: try_catch_def)
    next
      case (Inr a)
      with Pair assms(2) [of w a] show ?thesis by (simp add: try_catch_def)
    qed
  qed
qed

lemma yields_try_catch_body:
  assumes "yields P body"
  shows "yields P (try_catch body h)"
  unfolding yields_def
proof
  fix w
  obtain a where "fst (body w) = Inr a" "P a" using assms by (auto simp: yields_def)
  then show "\<exists>b. fst (try_catch body h w) = Inr b \<and> P b"
    by (cases "body w") (auto simp: try_catch_def)
qed

lemma yields_if: "yields P a \<Longrightarrow> yields P b \<Longrightarrow> yields P (if c then a else b)"
  by simp

lemma yields_unit: "yields (\<lambda>_. True) f \<Longrightarrow> fst (f w) = Inr ()"
  by (auto simp: yields_def)

lemma yields_weaken: "yields P f \<Longrightarrow> yields (\<lambda>_. True) f"
  by (auto simp: yields_def)

lemma fails_throw: "fails (throw e)"
  by (simp add: fails_def throw_def)

lemma fails_await: "rejects orc c \<Longrightarrow> fails (await orc c)"
  by (auto simp: fails_def rejects_def await_eq is_throw_def split: reply.splits)

lemma fails_andThen_first: "fails m \<Longrightarrow> fails (andThen m f)"
  unfolding fails_def
proof
  fix w
  assume "\<forall>w. \<exists>e. fst (m w) = Inl e"
  then obtain e where "fst (m w) = Inl e" by blast
  then show "\<exists>e. fst (andThen m f w) = Inl e"
    by (cases "m w") (auto simp: andThen_def)
qed

lemma fails_andThen_rest: "(\<And>a. fails (f a)) \<Longrightarrow> fails (andThen m f)"
  unfolding fails_def
proof
  fix w
  assume r: "\<And>a. \<forall>w. \<exists>e. fst (f a w) = Inl e"
  show "\<exists>e. fst (andThen m f w) = Inl e"
  proof (cases "m w")
    case (Pair r' w')
    then show ?thesis using r by (cases r') (auto simp: andThen_def)
  qed
qed

lemma fails_try_catch: "fails body \<Longrightarrow> (\<And>e. fails (h e)) \<Longrightarrow> fails (try_catch body h)"
  unfolding fails_def
proof
  fix w
  assume b: "\<forall>w. \<exists>e. fst (body w) = Inl e" and h: "\<And>e. \<forall>w. \<exists>e'. fst (h e w) = Inl e'"
  obtain e where "fst (body w) = Inl e" using b by blast
  then show "\<exists>e. fst (try_catch body h w) = Inl e"
    using h by (cases "body w") (auto simp: try_catch_def)
qed

lemma try_catch_fails_yields:
  "fails body \<Longrightarrow> (\<And>e. yields P (h e)) \<Longrightarrow> yields P (try_catch body h)"
proof (rule yields_try_catch_handler)
  fix w a
  assume "fails body" "fst (body w) = Inr a"
  then show "P a" unfolding fails_def by (metis sum.distinct(1))
qed

text \<open>\<open>fillField\<close>, \<open>fillDateField\<close> and \<open>fillIncidentForm\<close> never throw.\<close>

lemma yields_fillField: "yields (\<lambda>_. True) (fillField orc f v)"
  unfolding fillField_def
  by (rule yields_try_catch_handler) (simp_all add: yields_say)

lemma yields_fillDateField: "yields (\<lambda>_. True) (fillDateField orc f d)"
  unfolding fillDateField_def
  by (rule yields_try_catch_handler) (simp_all add: yields_say)

lemma yields_fillIncidentForm: "yields (\<lambda>_. True) (fillIncidentForm orc r)"
  unfolding fillIncidentForm_def
  by (intro yields_try_catch_body yields_andThen yields_if yields_fillField yields_fillDateField
        yields_say yields_ret) simp_all

subsection \<open>Candidate selectors are tried in list order\<close>


lemma andThen_await_waited:
  assumes "\<And>a. frame no_wait (rest a)"
  shows "waited (hist (snd (andThen (await orc (WaitForSelector s)) rest w))) = waited (hist w) @ [s]"
proof (cases "fst (await orc (WaitForSelector s) w)")
  case (Inl e)
  then show ?thesis
    by (cases "await orc (WaitForSelector s) w") (auto simp: andThen_def dest: arg_cong [where f = snd])
next
  case (Inr a)
  have "appends no_wait (snd (await orc (WaitForSelector s) w))
          (snd (rest a (snd (await orc (WaitForSelector s) w))))"
    using assms by (rule frameD)
  then have "waited (hist (snd (rest a (snd (await orc (WaitForSelector s) w)))))
             = waited (hist w) @ [s]"
    by (simp add: appends_waited)
  with Inr show ?thesis
    by (cases "await orc (WaitForSelector s) w") (auto simp: andThen_def)
qed

lemma fillField_try_waited:
  "waited (hist (snd (fillField_try orc f v s w))) = waited (hist w) @ [s]"
  unfolding fillField_try_def
  by (rule andThen_await_waited) (intro frame_rules, simp_all add: no_wait_def)


lemma createButton_try_waited:
  "waited (hist (snd (createButton_try orc s w))) = waited (hist w) @ [s]"
  unfolding createButton_try_def
  by (rule andThen_await_waited) (intro frame_rules, simp_all add: no_wait_def)

lemma fillField_loop_waited:
  "\<exists>n. n \<le> length sels \<and> (sels \<noteq> [] \<longrightarrow> 0 < n)
       \<and> waited (hist (snd (fillField_loop orc f v sels w))) = waited (hist w) @ take n sels
       \<and> (\<not> fst (fillField_loop orc f v sels w) \<longrightarrow> n = length sels)"
proof (induction sels arbitrary: w)
  case Nil
  then show ?case by simp
next
  case (Cons s sels)
  obtain r w1 where t: "fillField_try orc f v s w = (r, w1)" by (cases "fillField_try orc f v s w")
  have w1: "waited (hist w1) = waited (hist w) @ [s]"
    using fillField_try_waited [of orc f v s w] t by simp
  show ?case
  proof (cases r)
    case (Inr u)
    with t w1 show ?thesis by (intro exI [of _ 1]) simp
  next
    case (Inl e)
    obtain n where n: "n \<le> length sels"
      "waited (hist (snd (fillField_loop orc f v sels w1))) = waited (hist w1) @ take n sels"
      "\<not> fst (fillField_loop orc f v sels w1) \<longrightarrow> n = length sels"
      using Cons.IH [of w1] by blast
    with t Inl w1 show ?thesis by (intro exI [of _ "Suc n"]) simp
  qed
qed






lemma await_if:
  "await orc c w =
     (if is_throw (orc (hist w) c)
      then Inl (case orc (hist w) c of RThrow e \<Rightarrow> e | _ \<Rightarrow> [])
      else Inr (orc (hist w) c),
      w\<lparr>hist := hist w @ [c]\<rparr>)"
  by (simp add: await_eq is_throw_def split: reply.splits)








subsection \<open>Form filling: which failures abort a record\<close>


text \<open>The warning of \<open>fillField\<close> when every candidate failed.\<close>

lemma fillField_warns:
  assumes "\<not> fst (fillField_loop orc f v (selectors f) w)"
  shows \<open>fst (fillField orc f v w) = Inr ()
       \<and> entry_of (last (logs (currentProcessing (snd (fillField orc f v w)))))
           = (''Advertencia: No se pudo encontrar el campo "'' @ f @ ''"'', ''warning'')\<close>
proof -
  obtain b w1 where l: "fillField_loop orc f v (selectors f) w = (b, w1)"
    by (cases "fillField_loop orc f v (selectors f) w")
  with assms have "\<not> b" by simp
  with l show ?thesis
    by (simp add: fillField_def try_catch_def say_def addLog_eq entry_of_def)
qed

lemma fillField_waited:
  "\<exists>n. 0 < n \<and> n \<le> length (selectors f)
       \<and> waited (hist (snd (fillField orc f v w))) = waited (hist w) @ take n (selectors f)"
proof -
  obtain b w1 where l: "fillField_loop orc f v (selectors f) w = (b, w1)"
    by (cases "fillField_loop orc f v (selectors f) w")
  have ne: "selectors f \<noteq> []" by (simp add: selectors_def)
  obtain n where n: "n \<le> length (selectors f)" "0 < n"
    "waited (hist w1) = waited (hist w) @ take n (selectors f)"
    using fillField_loop_waited [of "selectors f" orc f v w] l ne by auto
  have "waited (hist (snd (fillField orc f v w))) = waited (hist w1)"
    using l by (cases b) (simp_all add: fillField_def try_catch_def say_def addLog_eq)
  with n show ?thesis by auto
qed

lemma andThen_unit:
  "yields (\<lambda>_. True) m \<Longrightarrow> andThen m f w = f () (snd (m w))"
  by (cases "m w") (auto simp: andThen_def dest: yields_unit [where w = w])

lemma await_ok:
  "\<not> is_throw (orc (hist w) c) \<Longrightarrow>
   await orc c w = (Inr (orc (hist w) c), w\<lparr>hist := hist w @ [c]\<rparr>)"
  by (simp add: await_eq is_throw_def split: reply.splits)

lemma await_throw:
  "is_throw (orc (hist w) c) \<Longrightarrow> \<exists>e. await orc c w = (Inl e, w\<lparr>hist := hist w @ [c]\<rparr>)"
  by (simp add: await_eq is_throw_def split: reply.splits)

lemma fillDateField_waited:
  "\<exists>n. n \<le> length (selectors f)
       \<and> waited (hist (snd (fillDateField orc f d w))) = waited (hist w) @ take n (selectors f)
       \<and> (succeeds orc (ToLocaleDateString d) \<and> succeeds orc (ToLocaleTimeString d) \<longrightarrow> 0 < n)"
proof (cases "is_throw (orc (hist w) (ToLocaleDateString d))")
  case True
  then obtain e where "await orc (ToLocaleDateString d) w
      = (Inl e, w\<lparr>hist := hist w @ [ToLocaleDateString d]\<rparr>)"
    using await_throw by blast
  then have "waited (hist (snd (fillDateField orc f d w))) = waited (hist w)"
    by (simp add: fillDateField_def try_catch_def andThen_def say_def addLog_eq)
  with True show ?thesis by (intro exI [of _ 0]) (auto simp: succeeds_def)
next
  case False
  let ?w1 = "w\<lparr>hist := hist w @ [ToLocaleDateString d]\<rparr>"
  have a1: "await orc (ToLocaleDateString d) w = (Inr (orc (hist w) (ToLocaleDateString d)), ?w1)"
    using False by (rule await_ok)
  show ?thesis
  proof (cases "is_throw (orc (hist ?w1) (ToLocaleTimeString d))")
    case True
    then obtain e where "await orc (ToLocaleTimeString d) ?w1
      = (Inl e, ?w1\<lparr>hist := hist ?w1 @ [ToLocaleTimeString d]\<rparr>)"
      using await_throw by blast
    then have "waited (hist (snd (fillDateField orc f d w))) = waited (hist w)"
      by (simp add: fillDateField_def try_catch_def andThen_def say_def addLog_eq a1)
    with True show ?thesis by (intro exI [of _ 0]) (auto simp: succeeds_def)
  next
    case False
    let ?w2 = "?w1\<lparr>hist := hist ?w1 @ [ToLocaleTimeString d]\<rparr>"
    let ?v = "str_of (orc (hist w) (ToLocaleDateString d)) @ '' ''
              @ str_of (orc (hist ?w1) (ToLocaleTimeString d))"
    have a2: "await orc (ToLocaleTimeString d) ?w1
        = (Inr (orc (hist ?w1) (ToLocaleTimeString d)), ?w2)"
      using False by (rule await_ok)
    obtain n where n: "0 < n" "n \<le> length (selectors f)"
      "waited (hist (snd (fillField orc f ?v ?w2))) = waited (hist ?w2) @ take n (selectors f)"
      using fillField_waited [of f orc ?v ?w2] by blast
    have "fst (fillField orc f ?v ?w2) = Inr ()"
      by (rule yields_unit [OF yields_fillField])
    then have "snd (fillDateField orc f d w) = snd (fillField orc f ?v ?w2)"
      by (cases "fillField orc f ?v ?w2")
         (simp add: fillDateField_def try_catch_def andThen_def a1 a2)
    with n show ?thesis by (intro exI [of _ n]) simp
  qed
qed

lemma fillIncidentForm_snd:
  "snd (fillIncidentForm orc r w) =
     addLog orc ''Formulario llenado correctamente'' ''info''
       (snd (fillField orc ''Action Code'' ''25 Vandalism - Manual Close''
         (snd ((if truthy (comentario r)
                then fillField orc ''Shared Comment'' (show_cell (comentario r))
                else ret ())
           (snd (fillDateField orc ''End Date'' (endDate r)
             (snd (fillDateField orc ''Start Date'' (startDate r)
               (snd (fillField orc ''Status Code'' (statusCode_of (tipo r)) w))))))))))"
proof -
  have c: "yields (\<lambda>_. True) (if truthy (comentario r)
                then fillField orc ''Shared Comment'' (show_cell (comentario r))
                else ret ())"
    by (simp add: yields_fillField yields_ret)
  show ?thesis
    unfolding fillIncidentForm_def try_catch_def
    by (simp only: andThen_unit [OF yields_fillField] andThen_unit [OF yields_fillDateField]
          andThen_unit [OF c] say_def prod.case sum.case snd_conv)
qed

lemma fillIncidentForm_waited:
  "\<exists>n1 n2 n3 n4 n5.
      waited (hist (snd (fillIncidentForm orc r w)))
        = waited (hist w) @ take n1 (selectors ''Status Code'')
            @ take n2 (selectors ''Start Date'') @ take n3 (selectors ''End Date'')
            @ take n4 (selectors ''Shared Comment'') @ take n5 (selectors ''Action Code'')
      \<and> 0 < n1 \<and> 0 < n5 \<and> (truthy (comentario r) \<longleftrightarrow> 0 < n4)
      \<and> (succeeds orc (ToLocaleDateString (startDate r))
           \<and> succeeds orc (ToLocaleTimeString (startDate r)) \<longrightarrow> 0 < n2)
      \<and> (succeeds orc (ToLocaleDateString (endDate r))
           \<and> succeeds orc (ToLocaleTimeString (endDate r)) \<longrightarrow> 0 < n3)"
proof -
  define w1 where "w1 = snd (fillField orc ''Status Code'' (statusCode_of (tipo r)) w)"
  define w2 where "w2 = snd (fillDateField orc ''Start Date'' (startDate r) w1)"
  define w3 where "w3 = snd (fillDateField orc ''End Date'' (endDate r) w2)"
  define w4 where "w4 = snd ((if truthy (comentario r)
                then fillField orc ''Shared Comment'' (show_cell (comentario r))
                else ret ()) w3)"
  define w5 where "w5 = snd (fillField orc ''Action Code'' ''25 Vandalism - Manual Close'' w4)"
  obtain n1 where n1: "0 < n1"
    "waited (hist w1) = waited (hist w) @ take n1 (selectors ''Status Code'')"
    unfolding w1_def
    using fillField_waited [of "''Status Code''" orc "statusCode_of (tipo r)" w] by blast
  obtain n2 where n2:
    "waited (hist w2) = waited (hist w1) @ take n2 (selectors ''Start Date'')"
    "succeeds orc (ToLocaleDateString (startDate r))
       \<and> succeeds orc (ToLocaleTimeString (startDate r)) \<longrightarrow> 0 < n2"
    unfolding w2_def
    using fillDateField_waited [of "''Start Date''" orc "startDate r" w1] by blast
  obtain n3 where n3:
    "waited (hist w3) = waited (hist w2) @ take n3 (selectors ''End Date'')"
    "succeeds orc (ToLocaleDateString (endDate r))
       \<and> succeeds orc (ToLocaleTimeString (endDate r)) \<longrightarrow> 0 < n3"
    unfolding w3_def
    using fillDateField_waited [of "''End Date''" orc "endDate r" w2] by blast
  obtain n4 where n4:
    "waited (hist w4) = waited (hist w3) @ take n4 (selectors ''Shared Comment'')"
    "truthy (comentario r) \<longleftrightarrow> 0 < n4"
  proof (cases "truthy (comentario r)")
    case True
    obtain n where "0 < n" "waited (hist (snd (fillField orc ''Shared Comment''
        (show_cell (comentario r)) w3))) = waited (hist w3) @ take n (selectors ''Shared Comment'')"
      using fillField_waited [of "''Shared Comment''" orc "show_cell (comentario r)" w3] by blast
    with True that [of n] show ?thesis by (simp add: w4_def)
  next
    case False
    with that [of 0] show ?thesis by (simp add: ret_def w4_def)
  qed
  obtain n5 where n5: "0 < n5"
    "waited (hist w5) = waited (hist w4) @ take n5 (selectors ''Action Code'')"
    unfolding w5_def
    using fillField_waited [of "''Action Code''" orc "''25 Vandalism - Manual Close''" w4] by blast
  have "snd (fillIncidentForm orc r w)
          = addLog orc ''Formulario llenado correctamente'' ''info'' w5"
    unfolding w5_def w4_def w3_def w2_def w1_def by (rule fillIncidentForm_snd)
  then have "waited (hist (snd (fillIncidentForm orc r w))) = waited (hist w5)"
    by (simp add: addLog_eq)
  then have "waited (hist (snd (fillIncidentForm orc r w)))
        = waited (hist w) @ take n1 (selectors ''Status Code'')
            @ take n2 (selectors ''Start Date'') @ take n3 (selectors ''End Date'')
            @ take n4 (selectors ''Shared Comment'') @ take n5 (selectors ''Action Code'')"
    by (simp only: n5(2) n4(1) n3(1) n2(1) n1(2) append_assoc)
  with n1(1) n2(2) n3(2) n4(2) n5(1) show ?thesis by blast
qed

lemma createButton_loop_found:
  assumes "succeeds orc (WaitForSelector s)" "succeeds orc (Click s)"
  shows "fst (createButton_loop orc (s # rest) w)"
proof -
  have "yields (\<lambda>_. True) (createButton_try orc s)"
    unfolding createButton_try_def
    by (intro yields_andThen yields_await yields_ret assms) simp
  then have "fst (createButton_try orc s w) = Inr ()" by (rule yields_unit)
  then show ?thesis by (cases "createButton_try orc s w") simp
qed

lemma saveIncident_loop_found:
  assumes "succeeds orc (WaitForSelector s)" "succeeds orc (Click s)"
    "succeeds orc (WaitForTimeout 2000)"
  shows "fst (saveIncident_loop orc (s # rest) w)"
proof -
  have "yields (\<lambda>_. True) (saveIncident_try orc s)"
    unfolding saveIncident_try_def
    by (intro yields_andThen yields_await yields_say assms) simp
  then have "fst (saveIncident_try orc s w) = Inr ()" by (rule yields_unit)
  then show ?thesis by (cases "saveIncident_try orc s w") simp
qed

lemma createButton_loop_none:
  assumes "\<forall>s \<in> set sels. rejects orc (WaitForSelector s)"
  shows "\<not> fst (createButton_loop orc sels w)"
  using assms
proof (induction sels arbitrary: w)
  case Nil
  then show ?case by simp
next
  case (Cons s sels)
  have "fails (createButton_try orc s)"
    unfolding createButton_try_def using Cons.prems
    by (intro fails_andThen_first fails_await) simp
  then obtain e where "fst (createButton_try orc s w) = Inl e" by (auto simp: fails_def)
  with Cons show ?case by (cases "createButton_try orc s w") simp
qed

lemma saveIncident_loop_none:
  assumes "\<forall>s \<in> set sels. rejects orc (WaitForSelector s)"
  shows "\<not> fst (saveIncident_loop orc sels w)"
  using assms
proof (induction sels arbitrary: w)
  case Nil
  then show ?case by simp
next
  case (Cons s sels)
  have "fails (saveIncident_try orc s)"
    unfolding saveIncident_try_def using Cons.prems
    by (intro fails_andThen_first fails_await) simp
  then obtain e where "fst (saveIncident_try orc s w) = Inl e" by (auto simp: fails_def)
  with Cons show ?case by (cases "saveIncident_try orc s w") simp
qed

lemma yields_found_case:
  assumes "\<And>w. fst (loop w)"
  shows "yields (\<lambda>_. True) (\<lambda>w. case loop w of
            (True, w') \<Rightarrow> (Inr (), w') | (False, w') \<Rightarrow> throw e w')"
  unfolding yields_def
proof
  fix w
  show "\<exists>a. fst (case loop w of (True, w') \<Rightarrow> (Inr (), w') | (False, w') \<Rightarrow> throw e w') = Inr a \<and> True"
    using assms [of w] by (cases "loop w") auto
qed

lemma fails_found_case:
  assumes "\<And>w. \<not> fst (loop w)"
  shows "fails (\<lambda>w. case loop w of
            (True, w') \<Rightarrow> (Inr (), w') | (False, w') \<Rightarrow> throw e w')"
  unfolding fails_def
proof
  fix w
  show "\<exists>e'. fst (case loop w of (True, w') \<Rightarrow> (Inr (), w') | (False, w') \<Rightarrow> throw e w') = Inl e'"
    using assms [of w] by (cases "loop w") (auto simp: throw_def)
qed

lemma yields_button_case:
  assumes "\<And>w. fst (loop w)"
  shows "yields (\<lambda>_. True) (\<lambda>w. case loop w of
            (buttonFound, w') \<Rightarrow> (if \<not> buttonFound then throw e w' else ret () w'))"
  unfolding yields_def
proof
  fix w
  show "\<exists>a. fst (case loop w of (buttonFound, w') \<Rightarrow>
          (if \<not> buttonFound then throw e w' else ret () w')) = Inr a \<and> True"
    using assms [of w] by (cases "loop w") (auto simp: ret_def)
qed

lemma fails_button_case:
  assumes "\<And>w. \<not> fst (loop w)"
  shows "fails (\<lambda>w. case loop w of
            (buttonFound, w') \<Rightarrow> (if \<not> buttonFound then throw e w' else ret () w'))"
  unfolding fails_def
proof
  fix w
  show "\<exists>e'. fst (case loop w of (buttonFound, w') \<Rightarrow>
          (if \<not> buttonFound then throw e w' else ret () w')) = Inl e'"
    using assms [of w] by (cases "loop w") (auto simp: throw_def)
qed

lemma yields_saveIncident:
  assumes "succeeds orc (WaitForSelector (hd saveSelectors))" "succeeds orc (Click (hd saveSelectors))"
    "succeeds orc (WaitForTimeout 2000)"
  shows "yields (\<lambda>_. True) (saveIncident orc)"
proof -
  obtain s rest where sr: "saveSelectors = s # rest" by (simp add: saveSelectors_def)
  have "\<And>w. fst (saveIncident_loop orc saveSelectors w)"
    unfolding sr using assms [unfolded sr] by (intro saveIncident_loop_found) simp_all
  then show ?thesis
    unfolding saveIncident_def
    by (intro yields_try_catch_body yields_found_case)
qed

lemma fails_saveIncident:
  assumes "\<forall>s \<in> set saveSelectors. rejects orc (WaitForSelector s)"
  shows "fails (saveIncident orc)"
  unfolding saveIncident_def
  by (intro fails_try_catch fails_found_case fails_andThen_rest fails_throw
        saveIncident_loop_none assms)

text \<open>The result of \<open>createIncident\<close> does not depend on the form fields.\<close>

lemma createIncident_true:
  assumes "succeeds orc (WaitForSelector (hd createButtonSelectors))"
    "succeeds orc (Click (hd createButtonSelectors))"
    "succeeds orc (WaitForTimeout 2000)"
    "succeeds orc (WaitForSelector (hd saveSelectors))" "succeeds orc (Click (hd saveSelectors))"
  shows "fst (createIncident orc r w) = Inr True"
proof -
  obtain s rest where sr: "createButtonSelectors = s # rest" by (simp add: createButtonSelectors_def)
  have b: "\<And>w. fst (createButton_loop orc createButtonSelectors w)"
    unfolding sr using assms(1,2) [unfolded sr] by (intro createButton_loop_found) simp_all
  have "yields (\<lambda>b. b) (createIncident orc r)"
    unfolding createIncident_def
    by (intro yields_try_catch_body yields_andThen yields_say yields_button_case b
          yields_await assms(3) yields_fillIncidentForm yields_saveIncident assms(4,5) yields_ret)
       simp_all
  then show ?thesis by (auto simp: yields_def)
qed


lemma createIncident_no_save:
  assumes "\<forall>s \<in> set saveSelectors. rejects orc (WaitForSelector s)"
  shows "fst (createIncident orc r w) = Inr False"
proof -
  have "yields (\<lambda>b. \<not> b) (createIncident orc r)"
    unfolding createIncident_def
    apply (rule try_catch_fails_yields)
     apply (rule fails_andThen_rest)
     apply (rule fails_andThen_rest)
     apply (rule fails_andThen_rest)
     apply (rule fails_andThen_rest)
     apply (rule fails_andThen_first)
     apply (rule fails_saveIncident [OF assms])
    apply (intro yields_andThen yields_say yields_ret)
     apply simp_all
    done
  then show ?thesis by (auto simp: yields_def)
qed

lemma createIncident_no_button:
  assumes "\<forall>s \<in> set createButtonSelectors. rejects orc (WaitForSelector s)"
  shows "fst (createIncident orc r w) = Inr False"
proof -
  have "yields (\<lambda>b. \<not> b) (createIncident orc r)"
    unfolding createIncident_def
    apply (rule try_catch_fails_yields)
     apply (rule fails_andThen_rest)
     apply (rule fails_andThen_first)
     apply (rule fails_button_case)
     apply (rule createButton_loop_none [OF assms])
    apply (intro yields_andThen yields_say yields_ret)
     apply simp_all
    done
  then show ?thesis by (auto simp: yields_def)
qed

lemma searchAndSelectATM_not_found:
  assumes "rejects orc (WaitForSelector searchSelector)"
  shows "fst (searchAndSelectATM orc i w) = Inr False"
proof -
  have "yields (\<lambda>b. \<not> b) (searchAndSelectATM orc i)"
    unfolding searchAndSelectATM_def
    apply (rule try_catch_fails_yields)
     apply (rule fails_andThen_rest)
     apply (rule fails_andThen_first)
     apply (rule fails_await [OF assms])
    apply (intro yields_andThen yields_say yields_ret)
     apply simp_all
    done
  then show ?thesis by (auto simp: yields_def)
qed

lemma fillField_loop_none:
  assumes "\<forall>s \<in> set sels. rejects orc (WaitForSelector s)"
  shows "\<not> fst (fillField_loop orc f v sels w)"
  using assms
proof (induction sels arbitrary: w)
  case Nil
  then show ?case by simp
next
  case (Cons s sels)
  have "fails (fillField_try orc f v s)"
    unfolding fillField_try_def using Cons.prems
    by (intro fails_andThen_first fails_await) simp
  then obtain e where "fst (fillField_try orc f v s w) = Inl e" by (auto simp: fails_def)
  with Cons show ?case by (cases "fillField_try orc f v s w") simp
qed

lemma no_fields_buttons:
  "succeeds no_fields (WaitForSelector (hd createButtonSelectors))"
  "succeeds no_fields (Click (hd createButtonSelectors))"
  "succeeds no_fields (WaitForTimeout 2000)"
  "succeeds no_fields (WaitForSelector (hd saveSelectors))"
  "succeeds no_fields (Click (hd saveSelectors))"
  by (simp_all add: succeeds_def no_fields_def is_throw_def createButtonSelectors_def
        saveSelectors_def)

lemma no_fields_action_code:
  "\<forall>s \<in> set (selectors ''Action Code''). rejects no_fields (WaitForSelector s)"
  by (simp add: selectors_def rejects_def no_fields_def is_throw_def createButtonSelectors_def
        saveSelectors_def toLowerCase_def lower_char_def)

lemma no_save_rejects: "\<forall>s \<in> set saveSelectors. rejects no_save (WaitForSelector s)"
  by (simp add: rejects_def no_save_def is_throw_def saveSelectors_def)

text \<open>
  C6. \<open>fillField\<close> never throws; when no candidate of a field is found it logs a
  warning and returns. \<open>fillIncidentForm\<close> never throws either and goes through the
  fields in the fixed order Status Code, Start Date, End Date, Shared Comment (only for
  a non-empty comment), Action Code, whatever happened to the earlier fields: the
  selectors it waits for are a non-empty prefix of the candidates of each field in
  turn (a date field is skipped only when the rendering of the date throws). The result
  of \<open>createIncident\<close> is \<open>true\<close> as soon as the create button, the pause and the
  save button work, without any condition on the fields, and \<open>false\<close> when no create
  button or no save button is found; \<open>searchAndSelectATM\<close> is \<open>false\<close> when the
  search box is not found.
\<close>


theorem field_failures_not_fatal:
  \<open>fst (fillField orc f v w) = Inr ()
   \<and> (\<not> fst (fillField_loop orc f v (selectors f) w) \<longrightarrow>
        entry_of (last (logs (currentProcessing (snd (fillField orc f v w)))))
          = (''Advertencia: No se pudo encontrar el campo "'' @ f @ ''"'', ''warning''))
   \<and> fst (fillIncidentForm orc r w) = Inr ()
   \<and> (\<exists>n1 n2 n3 n4 n5.
        waited (hist (snd (fillIncidentForm orc r w)))
          = waited (hist w) @ take n1 (selectors ''Status Code'')
              @ take n2 (selectors ''Start Date'') @ take n3 (selectors ''End Date'')
              @ take n4 (selectors ''Shared Comment'') @ take n5 (selectors ''Action Code'')
        \<and> 0 < n1 \<and> 0 < n5 \<and> (truthy (comentario r) \<longleftrightarrow> 0 < n4)
        \<and> (succeeds orc (ToLocaleDateString (startDate r))
             \<and> succeeds orc (ToLocaleTimeString (startDate r)) \<longrightarrow> 0 < n2)
        \<and> (succeeds orc (ToLocaleDateString (endDate r))
             \<and> succeeds orc (ToLocaleTimeString (endDate r)) \<longrightarrow> 0 < n3))
   \<and> (succeeds orc (WaitForSelector (hd createButtonSelectors))
        \<and> succeeds orc (Click (hd createButtonSelectors))
        \<and> succeeds orc (WaitForTimeout 2000)
        \<and> succeeds orc (WaitForSelector (hd saveSelectors))
        \<and> succeeds orc (Click (hd saveSelectors)) \<longrightarrow>
        fst (createIncident orc r w) = Inr True)
   \<and> ((\<forall>s \<in> set saveSelectors. rejects orc (WaitForSelector s)) \<longrightarrow>
        fst (createIncident orc r w) = Inr False)
   \<and> ((\<forall>s \<in> set createButtonSelectors. rejects orc (WaitForSelector s)) \<longrightarrow>
        fst (createIncident orc r w) = Inr False)
   \<and> (rejects orc (WaitForSelector searchSelector) \<longrightarrow>
        fst (searchAndSelectATM orc i w) = Inr False)\<close>
  using yields_unit [OF yields_fillField, of orc f v w]
    fillField_warns [of orc f v w]
    yields_unit [OF yields_fillIncidentForm, of orc r w]
    fillIncidentForm_waited [of orc r w]
    createIncident_true [of orc r w] createIncident_no_save [of orc r w]
    createIncident_no_button [of orc r w] searchAndSelectATM_not_found [of orc i w]
  by blast

theorem field_failures_not_fatal_witness:
  \<open>fst (createIncident no_fields record1 initial_world) = Inr True
   \<and> \<not> fst (fillField_loop no_fields ''Action Code'' ''25 Vandalism - Manual Close''
              (selectors ''Action Code'') initial_world)
   \<and> entry_of (last (logs (currentProcessing
        (snd (fillField no_fields ''Action Code'' ''25 Vandalism - Manual Close'' initial_world)))))
       = (''Advertencia: No se pudo encontrar el campo "Action Code"'', ''warning'')
   \<and> fst (createIncident no_save record1 initial_world) = Inr False\<close>
proof -
  have n: "\<not> fst (fillField_loop no_fields ''Action Code'' ''25 Vandalism - Manual Close''
              (selectors ''Action Code'') initial_world)"
    by (rule fillField_loop_none [OF no_fields_action_code])
  show ?thesis
    using field_failures_not_fatal [of no_fields "''Action Code''"
        "''25 Vandalism - Manual Close''" initial_world record1 "CStr ''ATM001''"]
      field_failures_not_fatal [of no_save "''Action Code''"
        "''25 Vandalism - Manual Close''" initial_world record1 "CStr ''ATM001''"]
      n no_fields_buttons no_save_rejects
    by simp
qed

subsection \<open>The batch runner and the session\<close>


lemma frame_saveIncident_try: "frame no_close (saveIncident_try orc s)"
  unfolding saveIncident_try_def by (intro frame_rules) (simp_all add: no_close_def)

lemma frame_createButton_try: "frame no_close (createButton_try orc s)"
  unfolding createButton_try_def by (intro frame_rules) (simp_all add: no_close_def)

lemma saveIncident_loop_appends:
  "appends no_close w (snd (saveIncident_loop orc sels w))"
proof (induction sels arbitrary: w)
  case Nil
  then show ?case by simp
next
  case (Cons s sels)
  obtain r w1 where t: "saveIncident_try orc s w = (r, w1)" by (cases "saveIncident_try orc s w")
  have 1: "appends no_close w w1"
    using frameD [OF frame_saveIncident_try [of orc s], of w] t by simp
  show ?case
  proof (cases r)
    case (Inr u)
    with t 1 show ?thesis by simp
  next
    case (Inl e)
    with t 1 Cons.IH [of w1] show ?thesis by (auto intro: appends_trans)
  qed
qed

lemma createButton_loop_appends:
  "appends no_close w (snd (createButton_loop orc sels w))"
proof (induction sels arbitrary: w)
  case Nil
  then show ?case by simp
next
  case (Cons s sels)
  obtain r w1 where t: "createButton_try orc s w = (r, w1)" by (cases "createButton_try orc s w")
  have 1: "appends no_close w w1"
    using frameD [OF frame_createButton_try [of orc s], of w] t by simp
  show ?case
  proof (cases r)
    case (Inr u)
    with t 1 show ?thesis by simp
  next
    case (Inl e)
    with t 1 Cons.IH [of w1] show ?thesis by (auto intro: appends_trans)
  qed
qed

lemma frame_saveIncident: "frame no_close (saveIncident orc)"
proof -
  have "frame no_close (\<lambda>w. case saveIncident_loop orc saveSelectors w of
               (True, w') \<Rightarrow> (Inr (), w')
             | (False, w') \<Rightarrow> throw ''No se encontro el boton de guardar'' w')"
    unfolding frame_def
  proof
    fix w
    show "appends no_close w (snd (case saveIncident_loop orc saveSelectors w of
               (True, w') \<Rightarrow> (Inr (), w')
             | (False, w') \<Rightarrow> throw ''No se encontro el boton de guardar'' w'))"
      using saveIncident_loop_appends [of w orc saveSelectors]
      by (cases "saveIncident_loop orc saveSelectors w") (auto simp: throw_def split: bool.splits)
  qed
  then show ?thesis
    unfolding saveIncident_def by (intro frame_rules) (simp_all add: no_close_def)
qed

lemma frame_createIncident: "frame no_close (createIncident orc r)"
proof -
  have "frame no_close (\<lambda>w. case createButton_loop orc createButtonSelectors w of
                        (buttonFound, w') \<Rightarrow>
                          (if \<not> buttonFound
                           then throw ''No se encontro el boton para crear incidente'' w'
                           else ret () w'))"
    unfolding frame_def
  proof
    fix w
    show "appends no_close w (snd (case createButton_loop orc createButtonSelectors w of
                        (buttonFound, w') \<Rightarrow>
                          (if \<not> buttonFound
                           then throw ''No se encontro el boton para crear incidente'' w'
                           else ret () w')))"
      using createButton_loop_appends [of w orc createButtonSelectors]
      by (cases "createButton_loop orc createButtonSelectors w") (auto simp: throw_def ret_def)
  qed
  then show ?thesis
    unfolding createIncident_def
    by (intro frame_rules frame_fillIncidentForm frame_saveIncident) (simp_all add: no_close_def)
qed

text \<open>\<open>initialize\<close> and \<open>close\<close>.\<close>

lemma initialize_appends: "appends no_close w (snd (snd (initialize orc au w)))"
proof -
  let ?w1 = "addLog orc ''Iniciando navegador...'' ''info'' w"
  have 1: "appends no_close w ?w1" by (rule appends_addLog) (simp add: no_close_def)
  have a: "\<And>c w. c \<noteq> BrowserClose \<Longrightarrow> appends no_close w (snd (await orc c w))"
    by (rule appends_await) (simp add: no_close_def)
  have 2: "appends no_close ?w1 (snd (await orc Launch ?w1))" by (rule a) simp
  have 3: "appends no_close (snd (await orc Launch ?w1))
             (snd (await orc NewPage (snd (await orc Launch ?w1))))" by (rule a) simp
  have 4: "appends no_close (snd (await orc NewPage (snd (await orc Launch ?w1))))
             (snd (await orc SetViewport (snd (await orc NewPage (snd (await orc Launch ?w1))))))"
    by (rule a) simp
  note t2 = appends_trans [OF 1 2]
  note t3 = appends_trans [OF t2 3]
  note t4 = appends_trans [OF t3 4]
  show ?thesis
    unfolding initialize_def Let_def
    using t2 t3 t4
    by (auto split: prod.splits sum.splits dest!: arg_cong [where f = snd])
qed

lemma initialize_browser:
  "browser (fst (snd (initialize orc au w)))
   = (browser au \<or> \<not> is_throw (orc (hist w @ [Now]) Launch))"
  by (auto simp: initialize_def Let_def await_eq addLog_eq is_throw_def
      split: prod.splits sum.splits reply.splits)

lemma initialize_result:
  "(\<exists>e. fst (initialize orc au w) = Inl e) \<or> fst (initialize orc au w) = Inr ()"
  by (auto simp: initialize_def Let_def split: prod.splits sum.splits)

lemma close_session:
  "currentProcessing (snd (close orc au w)) =
     (currentProcessing w)\<lparr>logs := logs (currentProcessing (snd (close orc au w)))\<rparr>"
  by (auto simp: close_def ret_def andThen_def await_eq say_def addLog_eq split: reply.splits)

lemma close_releases:
  "releases (hist (snd (close orc au w))) = releases (hist w) + (if browser au then 1 else 0)"
  by (auto simp: close_def ret_def andThen_def await_eq say_def addLog_eq releases_def
      split: reply.splits)

lemma close_throws:
  "(\<exists>e. fst (close orc au w) = Inl e) = (browser au \<and> is_throw (orc (hist w) BrowserClose))"
  by (auto simp: close_def ret_def andThen_def await_eq say_def is_throw_def split: reply.splits)

lemmas login_fields = appends_session [OF frameD [OF frame_login]]
  appends_releases [OF frameD [OF frame_login]]
lemmas search_fields = appends_session [OF frameD [OF frame_searchAndSelectATM]]
  appends_releases [OF frameD [OF frame_searchAndSelectATM]]
lemmas create_fields = appends_session [OF frameD [OF frame_createIncident]]
  appends_releases [OF frameD [OF frame_createIncident]]
lemmas initialize_fields = appends_session [OF initialize_appends]
  appends_releases [OF initialize_appends]

lemma close_fields:
  "isProcessing (currentProcessing (snd (close orc au w))) = isProcessing (currentProcessing w)"
  "currentRecord (currentProcessing (snd (close orc au w))) = currentRecord (currentProcessing w)"
  "totalRecords (currentProcessing (snd (close orc au w))) = totalRecords (currentProcessing w)"
  "processedRecords (currentProcessing (snd (close orc au w))) = processedRecords (currentProcessing w)"
  "records (currentProcessing (snd (close orc au w))) = records (currentProcessing w)"
  by (subst close_session, simp)+

lemmas method_fields = login_fields search_fields create_fields initialize_fields close_fields

lemmas runner_defs = resume_def case_prod_beta fatal_def loop_head_def record_failed_def
  after_create_def set_record_def increment_processed_def Let_def addLog_eq

lemma resume_keeps_stopped:
  "\<not> isProcessing (currentProcessing w) \<Longrightarrow>
   \<not> isProcessing (currentProcessing (snd (resume orc t w)))"
  by (cases "pc_of t")
     (auto simp: runner_defs method_fields split: sum.splits option.splits)

lemma step_Tick_keeps_stopped:
  "\<not> isProcessing (currentProcessing (glob s)) \<Longrightarrow>
   \<not> isProcessing (currentProcessing (glob (step orc (Tick k) s)))"
  using resume_keeps_stopped [of "glob s" orc "tasks s ! k"]
  by (simp add: step_def case_prod_beta)

lemma run_Ticks_keep_stopped:
  "\<not> isProcessing (currentProcessing (glob s)) \<Longrightarrow>
   \<not> isProcessing (currentProcessing (glob (run orc (map Tick ks) s)))"
  by (induction ks arbitrary: s) (simp_all add: step_Tick_keeps_stopped)

lemma stop_processing_flag:
  "\<not> isProcessing (currentProcessing (snd (stop_processing orc w)))"
  by (simp add: stop_processing_def addLog_eq)

lemmas runner_sim_defs = resume_sim_def case_prod_beta loop_head_sim_def set_record_sim_def
  Let_def addLog_sim_eq perform_sim_def

lemma resume_sim_keeps_stopped:
  "\<not> isProcessing_sim (processingState w) \<Longrightarrow>
   \<not> isProcessing_sim (processingState (snd (resume_sim orc k t w)))"
  by (cases "pc_sim_of t") (auto simp: runner_sim_defs)

lemma step_Tick_sim_keeps_stopped:
  "\<not> isProcessing_sim (processingState (glob_sim s)) \<Longrightarrow>
   \<not> isProcessing_sim (processingState (glob_sim (step_sim orc (Tick_sim k) s)))"
  using resume_sim_keeps_stopped [of "glob_sim s" orc k "tasks_sim s ! k"]
  by (simp add: step_sim_def case_prod_beta)

lemma run_Ticks_sim_keep_stopped:
  "\<not> isProcessing_sim (processingState (glob_sim s)) \<Longrightarrow>
   \<not> isProcessing_sim (processingState (glob_sim (run_sim orc (map Tick_sim ks) s)))"
  by (induction ks arbitrary: s) (simp_all add: step_Tick_sim_keeps_stopped)

lemma stop_sim_flag:
  "\<not> isProcessing_sim (processingState (snd (stop_sim orc w)))"
  by (simp add: stop_sim_def addLog_sim_eq)

text \<open>
  C10. The stop handlers of both servers set \<open>isProcessing\<close> to false before they
  answer, and no step of a background task ever sets the flag: after a stop, however
  many steps the background tasks take (and whatever they write to the records), a
  status read observes \<open>isProcessing = false\<close>, as long as no new start request is
  accepted.
\<close>


theorem stop_is_observed_at_once:
  "fst (stop_processing orc w) = Json_success ''Procesamiento detenido''
   \<and> isProcessing (currentProcessing (snd (stop_processing orc w))) = False
   \<and> fst (processing_status (glob (run orc (map Tick ks) (step orc Stop s)))) = False
   \<and> fst (stop_sim orc ws) = Json_success ''Procesamiento detenido''
   \<and> isProcessing_sim (processingState (snd (stop_sim orc ws))) = False
   \<and> isProcessing_sim (processingState
        (glob_sim (run_sim orc (map Tick_sim ks') (step_sim orc Stop_sim ss)))) = False"
proof -
  have 1: "\<not> isProcessing (currentProcessing (glob (step orc Stop s)))"
    by (simp add: step_def stop_processing_flag)
  have 2: "\<not> isProcessing_sim (processingState (glob_sim (step_sim orc Stop_sim ss)))"
    by (simp add: step_sim_def stop_sim_flag)
  show ?thesis
    using run_Ticks_keep_stopped [OF 1, of orc ks] run_Ticks_sim_keep_stopped [OF 2, of orc ks']
      stop_processing_flag [of orc w] stop_sim_flag [of orc ws]
    by (simp add: processing_status_def Let_def stop_processing_def stop_sim_def)
qed

subsection \<open>Start requests\<close>






lemma resume_settled: "settled (pc_of t) \<Longrightarrow> resume orc t w = (t, w)"
  by (auto simp: resume_def settled_def)













lemma upload_excel_flag:
  "isProcessing (currentProcessing (snd (upload_excel orc upl w)))
   = isProcessing (currentProcessing w)"
  by (cases upl)
     (simp_all add: upload_excel_def Let_def addLog_eq await_eq split: reply.splits)

lemma loaded_system_ready:
  "\<not> isProcessing (currentProcessing (glob loaded_system))"
  "records (currentProcessing (glob loaded_system)) \<noteq> []"
  "length (records (currentProcessing (glob loaded_system))) = 2"
  "tasks loaded_system = []"
proof -
  have "length (map id_r (parse_excel three_rows)) = 2" by (simp only: three_rows_eval) simp
  then have l: "length (parse_excel three_rows) = 2" by simp
  show "\<not> isProcessing (currentProcessing (glob loaded_system))"
    by (simp add: loaded_system_def upload_excel_flag initial_world_def)
  show "length (records (currentProcessing (glob loaded_system))) = 2"
    by (simp add: loaded_system_def upload_excel_state l)
  then show "records (currentProcessing (glob loaded_system)) \<noteq> []" by auto
  show "tasks loaded_system = []" by (simp add: loaded_system_def)
qed

lemma start_accepted_state:
  assumes "\<not> isProcessing (currentProcessing (glob s))" "credentials_ok (req_credentials req)"
    "records (currentProcessing (glob s)) \<noteq> []"
  shows "\<exists>t. pc_of t = AInit \<and>
     snd (start_processing orc req s)
       = s\<lparr>glob := (glob s)\<lparr>currentProcessing := (currentProcessing (glob s))
                               \<lparr>isProcessing := True, processedRecords := 0\<rparr>\<rparr>,
           tasks := tasks s @ [t]\<rparr>"
proof -
  from assms(2) obtain cr where cr: "req_credentials req = Some cr"
    by (auto simp: credentials_ok_def split: option.splits)
  show ?thesis
    by (rule exI [of _ "\<lparr>automation_of = new_automation (str_or_empty (username cr))
                                          (str_or_empty (password cr)),
                       config_of = req_config req, pc_of = AInit\<rparr>"])
       (use assms cr in \<open>simp add: start_processing_def\<close>)
qed







subsection \<open>The invariant of a batch run\<close>

lemma prefix_terminal_0 [simp]: "prefix_terminal 0 rs"
  by (simp add: prefix_terminal_def)

lemma prefix_terminal_update:
  "prefix_terminal i rs \<Longrightarrow> i < length rs \<Longrightarrow> terminal (status r) \<Longrightarrow>
   prefix_terminal (Suc i) (rs[i := r])"
  by (auto simp: prefix_terminal_def nth_list_update less_Suc_eq)

lemma prefix_terminal_update_same:
  "prefix_terminal i rs \<Longrightarrow> i \<le> j \<Longrightarrow> prefix_terminal i (rs[j := r])"
  by (auto simp: prefix_terminal_def nth_list_update)

lemma prefix_terminal_count:
  assumes "prefix_terminal i rs" "i \<le> length rs"
  shows "i \<le> length (filter (\<lambda>r. terminal (status r)) rs)"
proof -
  have "filter (\<lambda>r. terminal (status r)) (take i rs) = take i rs"
    using assms by (auto simp: prefix_terminal_def filter_id_conv in_set_conv_nth)
  moreover have "rs = take i rs @ drop i rs" by simp
  ultimately have "length (filter (\<lambda>r. terminal (status r)) rs)
      = length (take i rs) + length (filter (\<lambda>r. terminal (status r)) (drop i rs))"
    by (metis filter_append length_append)
  with assms(2) show ?thesis by simp
qed

lemma terminal_simps [simp]: "terminal ''completed''" "terminal ''error''" "terminal ''failed''"
  "\<not> terminal ''pending''" "\<not> terminal ''processing''"
  by (simp_all add: terminal_def)

lemma releases_simps [simp]:
  "releases [] = 0"
  "releases (c # cs) = (if c = BrowserClose then 1 else 0) + releases cs"
  by (simp_all add: releases_def)

text \<open>One step of the task of the batch.\<close>

lemma batch_inv_resume:
  assumes "batch_inv k r0 s" "resume orc (tasks s ! k) (glob s) = (t', w')"
  shows "batch_inv k r0 (s\<lparr>glob := w', tasks := (tasks s)[k := t']\<rparr>)"
proof -
  have k: "k < length (tasks s)" using assms(1) by (simp add: batch_inv_def)
  define t where "t = tasks s ! k"
  define w where "w = glob s"
  have r: "resume orc t w = (t', w')" using assms(2) by (simp add: t_def w_def)
  note inv = assms(1) [unfolded batch_inv_def, folded t_def w_def]
  show ?thesis
  proof (cases "pc_of t")
    case AInit
    obtain res au1 w1 where m: "initialize orc (automation_of t) w = (res, au1, w1)"
      by (cases "initialize orc (automation_of t) w")
    have w1: "w1 = snd (snd (initialize orc (automation_of t) w))" using m by simp
    have f: "isProcessing (currentProcessing w1) = isProcessing (currentProcessing w)"
      "currentRecord (currentProcessing w1) = currentRecord (currentProcessing w)"
      "processedRecords (currentProcessing w1) = processedRecords (currentProcessing w)"
      "records (currentProcessing w1) = records (currentProcessing w)"
      "releases (hist w1) = releases (hist w)"
      unfolding w1 by (simp_all add: initialize_fields)
    from r AInit have "t' = t\<lparr>automation_of := au1,
        pc_of := (case res of Inl e \<Rightarrow> AClose | Inr u \<Rightarrow> ALogin)\<rparr>"
      and "w' = (case res of Inl e \<Rightarrow> addLog orc (''Error fatal en procesamiento: '' @ e) ''error'' w1
                 | Inr u \<Rightarrow> w1)"
      by (auto simp: resume_def m fatal_def split: sum.splits)
    with inv k AInit f show ?thesis
      unfolding batch_inv_def
      by (cases res) (auto simp: addLog_eq settled_def Let_def)
  next
    case ALogin
    obtain res w1 where m: "login orc (automation_of t) w = (res, w1)"
      by (cases "login orc (automation_of t) w")
    have w1: "w1 = snd (login orc (automation_of t) w)" using m by simp
    have f: "isProcessing (currentProcessing w1) = isProcessing (currentProcessing w)"
      "currentRecord (currentProcessing w1) = currentRecord (currentProcessing w)"
      "processedRecords (currentProcessing w1) = processedRecords (currentProcessing w)"
      "records (currentProcessing w1) = records (currentProcessing w)"
      "releases (hist w1) = releases (hist w)"
      unfolding w1 by (simp_all add: login_fields)
    from r ALogin have "(t', w') =
        (case (if res = Inr True then loop_head orc 0 w1
               else fatal orc (case res of Inl e \<Rightarrow> e | Inr b \<Rightarrow> ''Error en el login'') w1) of
           (p, w'') \<Rightarrow> (t\<lparr>pc_of := p\<rparr>, w''))"
      by (auto simp: resume_def m split: sum.splits)
    with inv k ALogin f show ?thesis
      unfolding batch_inv_def
      by (auto simp: loop_head_def fatal_def addLog_eq settled_def Let_def split: if_splits)
  next
    case (ASearch i)
    obtain res w1 where m:
      "searchAndSelectATM orc (idNCR (records (currentProcessing w) ! i)) w = (res, w1)"
      by (cases "searchAndSelectATM orc (idNCR (records (currentProcessing w) ! i)) w")
    have w1: "w1 = snd (searchAndSelectATM orc (idNCR (records (currentProcessing w) ! i)) w)" using m by simp
    have f: "isProcessing (currentProcessing w1) = isProcessing (currentProcessing w)"
      "currentRecord (currentProcessing w1) = currentRecord (currentProcessing w)"
      "processedRecords (currentProcessing w1) = processedRecords (currentProcessing w)"
      "records (currentProcessing w1) = records (currentProcessing w)"
      "releases (hist w1) = releases (hist w)"
      unfolding w1 by (simp_all add: search_fields)
    from r ASearch have "(t', w') =
        (case res of
           Inl e \<Rightarrow> (case record_failed orc i e w1 of (p, w'') \<Rightarrow> (t\<lparr>pc_of := p\<rparr>, w''))
         | Inr searchSuccess \<Rightarrow>
             (if \<not> searchSuccess
              then (case loop_head orc (i + 1)
                     (set_record i (\<lambda>r. r\<lparr>status := ''error'',
                        error := Some ''No se pudo encontrar el ATM''\<rparr>) w1) of
                (p, w'') \<Rightarrow> (t\<lparr>pc_of := p\<rparr>, w''))
              else (t\<lparr>pc_of := ACreate i\<rparr>, w1)))"
      by (auto simp: resume_def m split: sum.splits)
    with inv k ASearch f show ?thesis
      unfolding batch_inv_def
      by (cases res)
         (auto simp: loop_head_def record_failed_def set_record_def increment_processed_def
            addLog_eq settled_def Let_def prefix_terminal_update
            split: if_splits intro: exI [of _ "Suc i"])
  next
    case (ACreate i)
    obtain res w1 where m:
      "createIncident orc (records (currentProcessing w) ! i) w = (res, w1)"
      by (cases "createIncident orc (records (currentProcessing w) ! i) w")
    have w1: "w1 = snd (createIncident orc (records (currentProcessing w) ! i) w)" using m by simp
    have f: "isProcessing (currentProcessing w1) = isProcessing (currentProcessing w)"
      "currentRecord (currentProcessing w1) = currentRecord (currentProcessing w)"
      "processedRecords (currentProcessing w1) = processedRecords (currentProcessing w)"
      "records (currentProcessing w1) = records (currentProcessing w)"
      "releases (hist w1) = releases (hist w)"
      unfolding w1 by (simp_all add: create_fields)
    from r ACreate have "(t', w') =
        (case res of
           Inl e \<Rightarrow> (case record_failed orc i e w1 of (p, w'') \<Rightarrow> (t\<lparr>pc_of := p\<rparr>, w''))
         | Inr createSuccess \<Rightarrow>
             (case after_create orc (config_of t) i
                     (if createSuccess
                      then addLog orc (''Registro ''
                             @ show_cell (idNCR (records (currentProcessing w1) ! i))
                             @ '' procesado exitosamente'') ''success''
                             (set_record i (\<lambda>r. r\<lparr>status := ''completed''\<rparr>) w1)
                      else set_record i (\<lambda>r. r\<lparr>status := ''error'',
                             error := Some ''Error creando incidente''\<rparr>) w1) of
                (p, w'') \<Rightarrow> (t\<lparr>pc_of := p\<rparr>, w'')))"
      by (auto simp: resume_def m Let_def split: sum.splits)
    with inv k ACreate f show ?thesis
      unfolding batch_inv_def
      by (cases res)
         (auto simp: loop_head_def record_failed_def after_create_def delay_wanted_def
            set_record_def increment_processed_def
            addLog_eq settled_def Let_def prefix_terminal_update
            split: if_splits option.splits intro: exI [of _ "Suc i"])
  next
    case (ADelay i)
    from r ADelay have "(t', w') =
        (case loop_head orc (i + 1) (increment_processed w) of (p, w'') \<Rightarrow> (t\<lparr>pc_of := p\<rparr>, w''))"
      by (simp add: resume_def)
    with inv k ADelay show ?thesis
      unfolding batch_inv_def
      by (auto simp: loop_head_def increment_processed_def addLog_eq settled_def Let_def
          split: if_splits)
  next
    case AClose
    obtain res w1 where m: "close orc (automation_of t) w = (res, w1)"
      by (cases "close orc (automation_of t) w")
    have f: "isProcessing (currentProcessing w1) = isProcessing (currentProcessing w)"
      "currentRecord (currentProcessing w1) = currentRecord (currentProcessing w)"
      "processedRecords (currentProcessing w1) = processedRecords (currentProcessing w)"
      "records (currentProcessing w1) = records (currentProcessing w)"
      "releases (hist w1) = releases (hist w) + (if browser (automation_of t) then 1 else 0)"
      using close_fields [of orc "automation_of t" w] close_releases [of orc "automation_of t" w] m
      by simp_all
    from r AClose have "(t', w') =
        (case res of
           Inl e \<Rightarrow> (t\<lparr>pc_of := ARejected\<rparr>, w1)
         | Inr u \<Rightarrow> (t\<lparr>pc_of := ADone\<rparr>,
                w1\<lparr>currentProcessing := (currentProcessing w1)
                     \<lparr>isProcessing := False, currentRecord := None\<rparr>\<rparr>))"
      by (auto simp: resume_def m split: sum.splits)
    with inv k AClose f show ?thesis
      unfolding batch_inv_def
      by (cases res) (auto simp: settled_def Let_def)
  next
    case ADone
    then have "resume orc t w = (t, w)"
      by (simp add: resume_settled settled_def)
    with r have "t' = t" "w' = w" by simp_all
    then have "s\<lparr>glob := w', tasks := (tasks s)[k := t']\<rparr> = s" by (simp add: t_def w_def)
    with assms(1) show ?thesis by simp
  next
    case ARejected
    then have "resume orc t w = (t, w)"
      by (simp add: resume_settled settled_def)
    with r have "t' = t" "w' = w" by simp_all
    then have "s\<lparr>glob := w', tasks := (tasks s)[k := t']\<rparr> = s" by (simp add: t_def w_def)
    with assms(1) show ?thesis by simp
  qed
qed

lemma batch_inv_Tick: "batch_inv k r0 s \<Longrightarrow> batch_inv k r0 (step orc (Tick k') s)"
proof -
  assume inv: "batch_inv k r0 s"
  show ?thesis
  proof (cases "k' < length (tasks s)")
    case False
    with inv show ?thesis by (simp add: step_def)
  next
    case k': True
    obtain t' w' where r: "resume orc (tasks s ! k') (glob s) = (t', w')"
      by (cases "resume orc (tasks s ! k') (glob s)")
    have s': "step orc (Tick k') s = s\<lparr>glob := w', tasks := (tasks s)[k' := t']\<rparr>"
      using k' r by (simp add: step_def)
    show ?thesis
    proof (cases "k' = k")
      case True
      with inv r s' show ?thesis by (simp add: batch_inv_resume)
    next
      case False
      with inv k' have "settled (pc_of (tasks s ! k'))" by (simp add: batch_inv_def)
      with r have "t' = tasks s ! k'" "w' = glob s" by (simp_all add: resume_settled)
      then have "step orc (Tick k') s = s" using s' by simp
      with inv show ?thesis by simp
    qed
  qed
qed

lemma batch_inv_Stop: "batch_inv k r0 s \<Longrightarrow> batch_inv k r0 (step orc Stop s)"
  unfolding batch_inv_def
  by (auto simp: step_def stop_processing_def addLog_eq Let_def split: pc.splits)

lemma batch_inv_step:
  "batch_inv k r0 s \<Longrightarrow> \<not> is_start ev \<Longrightarrow> batch_inv k r0 (step orc ev s)"
  by (cases ev) (simp_all add: batch_inv_Tick batch_inv_Stop is_start_def)

lemma batch_inv_start:
  assumes "\<forall>t \<in> set (tasks s). settled (pc_of t)"
    "fst (start_processing orc req s) = Json_success ''Procesamiento iniciado''"
  shows "batch_inv (length (tasks s)) (releases (hist (glob s))) (snd (start_processing orc req s))"
proof -
  from assms(2) obtain t where s1: "snd (start_processing orc req s)
      = s\<lparr>glob := (glob s)\<lparr>currentProcessing := (currentProcessing (glob s))
                               \<lparr>isProcessing := True, processedRecords := 0\<rparr>\<rparr>,
           tasks := tasks s @ [t]\<rparr>"
    and t: "pc_of t = AInit" "\<not> browser (automation_of t)"
    by (auto simp: start_processing_def new_automation_def split: if_splits option.splits)
  show ?thesis
    unfolding batch_inv_def s1 using assms(1) t
    by (auto simp: nth_append settled_def)
qed

lemma batch_inv_observations:
  assumes "batch_inv k r0 s" "\<forall>ev \<in> set evs. \<not> is_start ev"
  shows "\<forall>s' \<in> set (observations orc evs s). batch_inv k r0 s'"
  using assms
proof (induction evs arbitrary: s)
  case Nil
  then show ?case by simp
next
  case (Cons ev evs)
  have "batch_inv k r0 (step orc ev s)" using Cons.prems by (simp add: batch_inv_step)
  with Cons show ?case by simp
qed

lemma run_in_observations: "run orc evs s \<in> set (observations orc evs s)"
  by (induction evs arbitrary: s) simp_all

lemma batch_inv_count:
  assumes "batch_inv k r0 s"
  shows "processedRecords (currentProcessing (glob s)) \<le> terminal_count s"
proof -
  let ?cp = "currentProcessing (glob s)"
  have "\<exists>i \<le> length (records ?cp). processedRecords ?cp \<le> i \<and> prefix_terminal i (records ?cp)"
  proof (cases "pc_of (tasks s ! k)")
    case (ADelay i)
    with assms show ?thesis
      by (intro exI [of _ "i + 1"]) (auto simp: batch_inv_def Let_def)
  next
    case (ASearch i)
    with assms show ?thesis
      by (intro exI [of _ i]) (auto simp: batch_inv_def Let_def)
  next
    case (ACreate i)
    with assms show ?thesis
      by (intro exI [of _ i]) (auto simp: batch_inv_def Let_def)
  qed (use assms in \<open>auto simp: batch_inv_def Let_def intro: exI [of _ 0]\<close>)
  then obtain i where "i \<le> length (records ?cp)" "processedRecords ?cp \<le> i"
    "prefix_terminal i (records ?cp)" by blast
  then show ?thesis
    using prefix_terminal_count [of i "records ?cp"] by (simp add: terminal_count_def)
qed

subsection \<open>Runs in a world where every call succeeds\<close>

lemma all_ok_succeeds: "all_ok orc \<Longrightarrow> succeeds orc c"
  by (simp add: all_ok_def)

lemma await_all_ok:
  "all_ok orc \<Longrightarrow> await orc c w = (Inr (orc (hist w) c), w\<lparr>hist := hist w @ [c]\<rparr>)"
  by (simp add: await_if all_ok_def succeeds_def)

lemma initialize_ok:
  "all_ok orc \<Longrightarrow> fst (initialize orc au w) = Inr ()"
  by (simp add: initialize_def Let_def await_all_ok)

lemma login_ok: "all_ok orc \<Longrightarrow> fst (login orc au w) = Inr True"
proof -
  assume a: "all_ok orc"
  have "yields (\<lambda>b. b) (login orc au)"
    unfolding login_def
    by (intro yields_try_catch_body yields_andThen yields_say yields_await yields_ret
          all_ok_succeeds [OF a]) simp_all
  then show ?thesis by (auto simp: yields_def)
qed

lemma search_ok: "all_ok orc \<Longrightarrow> fst (searchAndSelectATM orc i w) = Inr True"
proof -
  assume a: "all_ok orc"
  have "yields (\<lambda>b. b) (searchAndSelectATM orc i)"
    unfolding searchAndSelectATM_def
    by (intro yields_try_catch_body yields_andThen yields_say yields_await yields_ret
          all_ok_succeeds [OF a]) simp_all
  then show ?thesis by (auto simp: yields_def)
qed

lemma create_ok: "all_ok orc \<Longrightarrow> fst (createIncident orc r w) = Inr True"
  by (rule createIncident_true) (simp_all add: all_ok_succeeds)

lemma close_ok: "all_ok orc \<Longrightarrow> fst (close orc au w) = Inr ()"
  using close_throws [of orc au w]
  by (cases "fst (close orc au w)") (auto simp: all_ok_def succeeds_def)


lemma delay_wanted_adelay:
  "(delay_wanted cfg i w = None)
   = (\<not> (adelay cfg \<and> i + 1 < length (records (currentProcessing w))))"
  by (auto simp: delay_wanted_def adelay_def split: option.splits)

lemma view_single:
  "view (s\<lparr>glob := w', tasks := [t']\<rparr>) = \<lparr>a_processing = isProcessing (currentProcessing w'),
      a_current = currentRecord (currentProcessing w'),
      a_processed = processedRecords (currentProcessing w'),
      a_status = map status (records (currentProcessing w')),
      a_pc = pc_of t', a_config = config_of t'\<rparr>"
  by (simp add: view_def)

lemma view_resume:
  assumes ok: "all_ok orc" and one: "tasks s = [t]"
    and r: "resume orc t (glob s) = (t', w')"
  shows "view (s\<lparr>glob := w', tasks := [t']\<rparr>) = astep (view s)"
proof -
  define w where "w = glob s"
  have r: "resume orc t w = (t', w')" using r by (simp add: w_def)
  have v: "view s = \<lparr>a_processing = isProcessing (currentProcessing w),
      a_current = currentRecord (currentProcessing w),
      a_processed = processedRecords (currentProcessing w),
      a_status = map status (records (currentProcessing w)),
      a_pc = pc_of t, a_config = config_of t\<rparr>"
    by (simp add: view_def one w_def)
  note lhs = view_single
  show ?thesis
  proof (cases "pc_of t")
    case AInit
    obtain res au1 w1 where m: "initialize orc (automation_of t) w = (res, au1, w1)"
      by (cases "initialize orc (automation_of t) w")
    have w1: "w1 = snd (snd (initialize orc (automation_of t) w))" using m by simp
    have f: "isProcessing (currentProcessing w1) = isProcessing (currentProcessing w)"
      "currentRecord (currentProcessing w1) = currentRecord (currentProcessing w)"
      "processedRecords (currentProcessing w1) = processedRecords (currentProcessing w)"
      "records (currentProcessing w1) = records (currentProcessing w)"
      unfolding w1 by (simp_all add: initialize_fields)
    have "res = Inr ()" using initialize_ok [OF ok, of "automation_of t" w] m by simp
    with r AInit m have "t' = t\<lparr>automation_of := au1, pc_of := ALogin\<rparr>" "w' = w1"
      by (simp_all add: resume_def)
    with AInit f show ?thesis by (simp add: v lhs astep_def)
  next
    case ALogin
    obtain res w1 where m: "login orc (automation_of t) w = (res, w1)"
      by (cases "login orc (automation_of t) w")
    have w1: "w1 = snd (login orc (automation_of t) w)" using m by simp
    have f: "isProcessing (currentProcessing w1) = isProcessing (currentProcessing w)"
      "currentRecord (currentProcessing w1) = currentRecord (currentProcessing w)"
      "processedRecords (currentProcessing w1) = processedRecords (currentProcessing w)"
      "records (currentProcessing w1) = records (currentProcessing w)"
      unfolding w1 by (simp_all add: login_fields)
    have "res = Inr True" using login_ok [OF ok, of "automation_of t" w] m by simp
    with r ALogin m have "(t', w') = (case loop_head orc 0 w1 of (p, w'') \<Rightarrow> (t\<lparr>pc_of := p\<rparr>, w''))"
      by (simp add: resume_def)
    with ALogin f show ?thesis
      by (auto simp: v lhs astep_def ahead_def loop_head_def addLog_eq Let_def split: if_splits)
  next
    case (ASearch i)
    obtain res w1 where m:
      "searchAndSelectATM orc (idNCR (records (currentProcessing w) ! i)) w = (res, w1)"
      by (cases "searchAndSelectATM orc (idNCR (records (currentProcessing w) ! i)) w")
    have w1: "w1 = snd (searchAndSelectATM orc (idNCR (records (currentProcessing w) ! i)) w)"
      using m by simp
    have f: "isProcessing (currentProcessing w1) = isProcessing (currentProcessing w)"
      "currentRecord (currentProcessing w1) = currentRecord (currentProcessing w)"
      "processedRecords (currentProcessing w1) = processedRecords (currentProcessing w)"
      "records (currentProcessing w1) = records (currentProcessing w)"
      unfolding w1 by (simp_all add: search_fields)
    have "res = Inr True"
      using search_ok [OF ok, of "idNCR (records (currentProcessing w) ! i)" w] m by simp
    with r ASearch m have "t' = t\<lparr>pc_of := ACreate i\<rparr>" "w' = w1"
      by (simp_all add: resume_def)
    with ASearch f show ?thesis by (simp add: v lhs astep_def)
  next
    case (ACreate i)
    obtain res w1 where m:
      "createIncident orc (records (currentProcessing w) ! i) w = (res, w1)"
      by (cases "createIncident orc (records (currentProcessing w) ! i) w")
    have w1: "w1 = snd (createIncident orc (records (currentProcessing w) ! i) w)"
      using m by simp
    have f: "isProcessing (currentProcessing w1) = isProcessing (currentProcessing w)"
      "currentRecord (currentProcessing w1) = currentRecord (currentProcessing w)"
      "processedRecords (currentProcessing w1) = processedRecords (currentProcessing w)"
      "records (currentProcessing w1) = records (currentProcessing w)"
      unfolding w1 by (simp_all add: create_fields)
    have "res = Inr True"
      using create_ok [OF ok, of "records (currentProcessing w) ! i" w] m by simp
    define w2 where "w2 = addLog orc (''Registro ''
                             @ show_cell (idNCR (records (currentProcessing w1) ! i))
                             @ '' procesado exitosamente'') ''success''
                             (set_record i (\<lambda>r. r\<lparr>status := ''completed''\<rparr>) w1)"
    have f2: "isProcessing (currentProcessing w2) = isProcessing (currentProcessing w)"
      "currentRecord (currentProcessing w2) = currentRecord (currentProcessing w)"
      "processedRecords (currentProcessing w2) = processedRecords (currentProcessing w)"
      "map status (records (currentProcessing w2))
        = (map status (records (currentProcessing w)))[i := ''completed'']"
      "length (records (currentProcessing w2)) = length (records (currentProcessing w))"
      by (simp_all add: w2_def set_record_def addLog_eq f map_update)
    from \<open>res = Inr True\<close> r ACreate m have tw: "(t', w') =
        (case after_create orc (config_of t) i w2 of (p, w'') \<Rightarrow> (t\<lparr>pc_of := p\<rparr>, w''))"
      by (simp add: resume_def w2_def)
    show ?thesis
    proof (cases "adelay (config_of t) \<and> i + 1 < length (records (currentProcessing w))")
      case True
      then have "delay_wanted (config_of t) i w2 \<noteq> None"
        by (simp add: delay_wanted_adelay f2)
      then obtain d where "delay_wanted (config_of t) i w2 = Some d" by auto
      with tw have "t' = t\<lparr>pc_of := ADelay i\<rparr>"
        "w' = addLog orc (''Esperando '' @ show_nat d @ ''ms antes del siguiente registro...'')
             ''info'' w2"
        by (simp_all add: after_create_def)
      with True ACreate f2 show ?thesis by (simp add: v lhs astep_def addLog_eq)
    next
      case False
      then have "delay_wanted (config_of t) i w2 = None"
        by (simp add: delay_wanted_adelay f2)
      with tw have "(t', w') = (case loop_head orc (i + 1) (increment_processed w2) of
          (p, w'') \<Rightarrow> (t\<lparr>pc_of := p\<rparr>, w''))"
        by (simp add: after_create_def)
      with False ACreate f2 show ?thesis
        by (auto simp: v lhs astep_def ahead_def loop_head_def increment_processed_def
            addLog_eq Let_def split: if_splits)
    qed
  next
    case (ADelay i)
    from r ADelay have "(t', w') =
        (case loop_head orc (i + 1) (increment_processed w) of (p, w'') \<Rightarrow> (t\<lparr>pc_of := p\<rparr>, w''))"
      by (simp add: resume_def)
    with ADelay show ?thesis
      by (auto simp: v lhs astep_def ahead_def loop_head_def increment_processed_def
          addLog_eq Let_def split: if_splits)
  next
    case AClose
    obtain res w1 where m: "close orc (automation_of t) w = (res, w1)"
      by (cases "close orc (automation_of t) w")
    have w1: "w1 = snd (close orc (automation_of t) w)" using m by simp
    have f: "processedRecords (currentProcessing w1) = processedRecords (currentProcessing w)"
      "records (currentProcessing w1) = records (currentProcessing w)"
      unfolding w1 by (simp_all add: close_fields)
    have "res = Inr ()" using close_ok [OF ok, of "automation_of t" w] m by simp
    with r AClose m have "t' = t\<lparr>pc_of := ADone\<rparr>"
      "w' = w1\<lparr>currentProcessing := (currentProcessing w1)
                     \<lparr>isProcessing := False, currentRecord := None\<rparr>\<rparr>"
      by (simp_all add: resume_def)
    with AClose f show ?thesis by (simp add: v lhs astep_def)
  next
    case ADone
    with r have "t' = t" "w' = w" by (simp_all add: resume_def)
    with ADone show ?thesis by (simp add: v lhs astep_def)
  next
    case ARejected
    with r have "t' = t" "w' = w" by (simp_all add: resume_def)
    with ARejected show ?thesis by (simp add: v lhs astep_def)
  qed
qed

lemma view_step:
  assumes "all_ok orc" "length (tasks s) = 1" "\<not> is_start ev"
  shows "view (step orc ev s) = aevent (view s) ev \<and> length (tasks (step orc ev s)) = 1"
proof -
  from assms(2) obtain t where one: "tasks s = [t]"
    by (cases "tasks s") auto
  show ?thesis
  proof (cases ev)
    case (Start r)
    with assms(3) show ?thesis by (simp add: is_start_def)
  next
    case Stop
    then show ?thesis
      using assms(2) by (simp add: step_def stop_processing_def addLog_eq view_def aevent_def)
  next
    case (Tick k)
    show ?thesis
    proof (cases "k = 0")
      case False
      with Tick one assms(2) show ?thesis by (simp add: step_def aevent_def)
    next
      case True
      obtain t' w' where r: "resume orc t (glob s) = (t', w')" by (cases "resume orc t (glob s)")
      have "step orc ev s = s\<lparr>glob := w', tasks := [t']\<rparr>"
        using Tick True one r by (simp add: step_def)
      with view_resume [OF assms(1) one r] Tick True show ?thesis by (simp add: aevent_def)
    qed
  qed
qed

lemma view_run:
  assumes "all_ok orc" "length (tasks s) = 1" "\<forall>ev \<in> set evs. \<not> is_start ev"
  shows "view (run orc evs s) = foldl aevent (view s) evs"
  using assms(2,3)
proof (induction evs arbitrary: s)
  case Nil
  then show ?case by simp
next
  case (Cons ev evs)
  have "view (step orc ev s) = aevent (view s) ev" "length (tasks (step orc ev s)) = 1"
    using view_step [OF assms(1) Cons.prems(1), of ev] Cons.prems(2) by simp_all
  with Cons show ?case by simp
qed

subsection \<open>The run of a batch on the uploaded records\<close>

lemma all_ok_ok_env: "all_ok ok_env"
  by (simp add: all_ok_def succeeds_def ok_env_def is_throw_def split: call.splits)

lemma three_rows_status: "map status (parse_excel three_rows) = [''pending'', ''pending'']"
  by (simp add: parse_excel_def three_rows_def row_record_def or_else_def truthy_def
      enumerate_eq_zip upt_rec)

lemma upload_excel_current:
  "currentRecord (currentProcessing (snd (upload_excel orc upl w)))
   = currentRecord (currentProcessing w)"
  by (cases upl)
     (simp_all add: upload_excel_def Let_def addLog_eq await_eq split: reply.splits)

lemma credentials_ok_reqs:
  "credentials_ok (req_credentials valid_req)" "credentials_ok (req_credentials delay_req)"
  by (simp_all add: valid_req_def delay_req_def credentials_ok_def present_def)

lemma view_started:
  assumes "credentials_ok (req_credentials req)"
  shows "view (step ok_env (Start req) loaded_system)
         = \<lparr>a_processing = True, a_current = None, a_processed = 0,
            a_status = [''pending'', ''pending''], a_pc = AInit, a_config = req_config req\<rparr>"
    and "length (tasks (step ok_env (Start req) loaded_system)) = 1"
proof -
  obtain t where t: "pc_of t = AInit"
    "snd (start_processing ok_env req loaded_system)
       = loaded_system\<lparr>glob := (glob loaded_system)\<lparr>currentProcessing :=
             (currentProcessing (glob loaded_system))
               \<lparr>isProcessing := True, processedRecords := 0\<rparr>\<rparr>,
           tasks := tasks loaded_system @ [t]\<rparr>"
    using start_accepted_state [OF loaded_system_ready(1) assms loaded_system_ready(2)] by blast
  have c: "config_of (last (tasks (snd (start_processing ok_env req loaded_system)))) = req_config req"
    using assms loaded_system_ready
    by (auto simp: start_processing_def credentials_ok_def split: option.splits)
  have cfg: "config_of t = req_config req"
    using c by (simp add: t(2))
  have st: "map status (records (currentProcessing (glob loaded_system))) = [''pending'', ''pending'']"
    by (simp add: loaded_system_def upload_excel_state three_rows_status)
  have cur: "currentRecord (currentProcessing (glob loaded_system)) = None"
    by (simp add: loaded_system_def upload_excel_current initial_world_def)
  show "view (step ok_env (Start req) loaded_system)
         = \<lparr>a_processing = True, a_current = None, a_processed = 0,
            a_status = [''pending'', ''pending''], a_pc = AInit, a_config = req_config req\<rparr>"
    by (simp add: step_def t view_def loaded_system_ready(4) st cur cfg)
  show "length (tasks (step ok_env (Start req) loaded_system)) = 1"
    by (simp add: step_def t(2) loaded_system_ready(4))
qed

lemma view_run_started:
  assumes "credentials_ok (req_credentials req)" "\<forall>ev \<in> set evs. \<not> is_start ev"
  shows "view (run ok_env (Start req # evs) loaded_system)
         = foldl aevent \<lparr>a_processing = True, a_current = None, a_processed = 0,
            a_status = [''pending'', ''pending''], a_pc = AInit, a_config = req_config req\<rparr> evs"
  using view_run [OF all_ok_ok_env view_started(2) [OF assms(1)] assms(2)]
  by (simp add: view_started(1) [OF assms(1)])

lemmas aview_eval = aevent_def astep_def ahead_def adelay_def is_start_def

lemma terminal_count_view:
  "terminal_count s = length (filter terminal (a_status (view s)))"
  by (simp add: terminal_count_def view_def filter_map comp_def)

lemma processing_count_view:
  "processing_count s = length (filter (\<lambda>st. st = ''processing'') (a_status (view s)))"
  by (simp add: processing_count_def view_def filter_map comp_def)

lemma view_fields:
  "isProcessing (currentProcessing (glob s)) = a_processing (view s)"
  "currentRecord (currentProcessing (glob s)) = a_current (view s)"
  "processedRecords (currentProcessing (glob s)) = a_processed (view s)"
  "map status (records (currentProcessing (glob s))) = a_status (view s)"
  by (simp_all add: view_def)

subsection \<open>Stop requests and the loop of \<open>processRecords\<close>\<close>

text \<open>
  C2 fails for the Puppeteer server. Two records are loaded, the batch is started, the
  browser is initialised and the login done (two steps of the background task), so that
  record 1 is in work, and the stop request arrives. The flag is cleared at once, but
  the loop of \<open>processRecords\<close> (line 412) never reads it: two steps later record 2
  has begun, and after two more steps both records are completed. The claim says that no
  record after the one in flight begins.
\<close>

theorem stop_ignored_by_processRecords:
  "currentRecord (currentProcessing (glob
      (run ok_env [Start valid_req, Tick 0, Tick 0, Stop] loaded_system))) = Some 0
   \<and> map status (records (currentProcessing (glob
      (run ok_env [Start valid_req, Tick 0, Tick 0, Stop] loaded_system))))
       = [''pending'', ''pending'']
   \<and> \<not> isProcessing (currentProcessing (glob
      (run ok_env [Start valid_req, Tick 0, Tick 0, Stop, Tick 0, Tick 0] loaded_system)))
   \<and> currentRecord (currentProcessing (glob
      (run ok_env [Start valid_req, Tick 0, Tick 0, Stop, Tick 0, Tick 0] loaded_system))) = Some 1
   \<and> map status (records (currentProcessing (glob
      (run ok_env [Start valid_req, Tick 0, Tick 0, Stop, Tick 0, Tick 0, Tick 0, Tick 0]
         loaded_system)))) = [''completed'', ''completed'']"
proof -
  have 1: "view (run ok_env [Start valid_req, Tick 0, Tick 0, Stop] loaded_system)
     = \<lparr>a_processing = False, a_current = Some 0, a_processed = 0,
        a_status = [''pending'', ''pending''], a_pc = ASearch 0, a_config = None\<rparr>"
    by (subst view_run_started [OF credentials_ok_reqs(1)]) (simp_all add: aview_eval valid_req_def)
  have 2: "view (run ok_env [Start valid_req, Tick 0, Tick 0, Stop, Tick 0, Tick 0] loaded_system)
     = \<lparr>a_processing = False, a_current = Some 1, a_processed = 1,
        a_status = [''completed'', ''pending''], a_pc = ASearch 1, a_config = None\<rparr>"
    by (subst view_run_started [OF credentials_ok_reqs(1)]) (simp_all add: aview_eval valid_req_def)
  have 3: "view (run ok_env [Start valid_req, Tick 0, Tick 0, Stop, Tick 0, Tick 0, Tick 0, Tick 0]
       loaded_system)
     = \<lparr>a_processing = False, a_current = Some 1, a_processed = 2,
        a_status = [''completed'', ''completed''], a_pc = AClose, a_config = None\<rparr>"
    by (subst view_run_started [OF credentials_ok_reqs(1)]) (simp_all add: aview_eval valid_req_def)
  show ?thesis by (simp only: view_fields 1 2 3 aview.simps simp_thms)
qed

text \<open>
  The loop of the simulated server (line 568) does test the flag: with the same
  schedule the record in flight is completed and the second one is never begun.
\<close>

lemma stop_honoured_by_simulation:
  "map status_s (records_of (tasks_sim
      (run_sim ok_env [Process valid_req_sim, Tick_sim 0, Stop_sim, Tick_sim 0, Tick_sim 0, Tick_sim 0]
         initial_system_sim) ! 0)) = [''completed'', ''pending'']
   \<and> pc_sim_of (tasks_sim
      (run_sim ok_env [Process valid_req_sim, Tick_sim 0, Stop_sim, Tick_sim 0, Tick_sim 0, Tick_sim 0]
         initial_system_sim) ! 0) = SDone"
  by (simp add: step_sim_def process_def stop_sim_def runner_sim_defs initial_system_sim_def
      initial_world_sim_def valid_req_sim_def two_records_sim_def present_def ok_env_def)

subsection \<open>What a step of a task writes\<close>

lemma set_record_simps:
  "length (records (currentProcessing (set_record i f w)))
     = length (records (currentProcessing w))"
  "processedRecords (currentProcessing (set_record i f w))
     = processedRecords (currentProcessing w)"
  by (simp_all add: set_record_def)

lemma set_record_status:
  assumes "terminal (status (f (records (currentProcessing w) ! i)))"
  shows "(status (records (currentProcessing (set_record i f w)) ! j)
           = status (records (currentProcessing w) ! j)
         \<or> (terminal (status (records (currentProcessing (set_record i f w)) ! j))
            \<and> j = i \<and> i < length (records (currentProcessing w))))
       \<and> (i < length (records (currentProcessing w)) \<longrightarrow>
           terminal (status (records (currentProcessing (set_record i f w)) ! i)))"
proof (cases "i < length (records (currentProcessing w))")
  case True
  with assms show ?thesis by (cases "j = i") (simp_all add: set_record_def)
next
  case False
  then show ?thesis by (simp add: set_record_def list_update_beyond)
qed

lemma loop_head_effect:
  "records (currentProcessing (snd (loop_head orc i w))) = records (currentProcessing w)"
  "processedRecords (currentProcessing (snd (loop_head orc i w)))
     = processedRecords (currentProcessing w)"
  "fst (loop_head orc i w)
     = (if i < length (records (currentProcessing w)) then ASearch i else AClose)"
  by (simp_all add: loop_head_def addLog_eq Let_def)

lemma record_failed_effect:
  "records (currentProcessing (snd (record_failed orc i e w)))
     = records (currentProcessing
         (set_record i (\<lambda>r. r\<lparr>status := ''error'', error := Some e\<rparr>) w))"
  "processedRecords (currentProcessing (snd (record_failed orc i e w)))
     = processedRecords (currentProcessing w) + 1"
  "fst (record_failed orc i e w)
     = (if i + 1 < length (records (currentProcessing w)) then ASearch (i + 1) else AClose)"
  by (simp_all add: record_failed_def loop_head_effect set_record_def increment_processed_def
      addLog_eq Let_def)

lemma after_create_effect:
  "records (currentProcessing (snd (after_create orc cfg i w))) = records (currentProcessing w)"
  "processedRecords (currentProcessing (snd (after_create orc cfg i w)))
     = processedRecords (currentProcessing w) + (if fst (after_create orc cfg i w) = ADelay i then 0 else 1)"
  "fst (after_create orc cfg i w) = ADelay i \<or> fst (after_create orc cfg i w) = AClose
     \<or> fst (after_create orc cfg i w) = ASearch (i + 1)"
  by (simp_all add: after_create_def loop_head_effect increment_processed_def addLog_eq
      split: option.splits)

text \<open>
  What one step of a task does to the records and to the processed count, whatever the
  world answers: the only status written is a terminal one, to the record the task is
  working on, and the count grows by one at most.
\<close>

lemma resume_effect:
  assumes r: "resume orc t w = (t', w')"
  shows "length (records (currentProcessing w')) = length (records (currentProcessing w))"
    and "status (records (currentProcessing w') ! j) = status (records (currentProcessing w) ! j)
         \<or> (terminal (status (records (currentProcessing w') ! j))
            \<and> j < length (records (currentProcessing w))
            \<and> (pc_of t = ASearch j \<or> pc_of t = ACreate j))"
    and "processedRecords (currentProcessing w') = processedRecords (currentProcessing w)
         \<or> (processedRecords (currentProcessing w') = processedRecords (currentProcessing w) + 1
            \<and> (\<exists>i. (pc_of t = ASearch i \<or> pc_of t = ACreate i \<or> pc_of t = ADelay i)
                   \<and> (i < length (records (currentProcessing w)) \<longrightarrow>
                        pc_of t \<noteq> ADelay i \<longrightarrow>
                        terminal (status (records (currentProcessing w') ! i)))))"
proof -
  let ?R = "\<lambda>w. records (currentProcessing w)"
  let ?P = "\<lambda>w. processedRecords (currentProcessing w)"
  have "length (?R w') = length (?R w)
    \<and> (status (?R w' ! j) = status (?R w ! j)
         \<or> (terminal (status (?R w' ! j)) \<and> j < length (?R w)
            \<and> (pc_of t = ASearch j \<or> pc_of t = ACreate j)))
    \<and> (?P w' = ?P w
         \<or> (?P w' = ?P w + 1
            \<and> (\<exists>i. (pc_of t = ASearch i \<or> pc_of t = ACreate i \<or> pc_of t = ADelay i)
                   \<and> (i < length (?R w) \<longrightarrow> pc_of t \<noteq> ADelay i \<longrightarrow>
                        terminal (status (?R w' ! i))))))"
  proof (cases "pc_of t")
    case AInit
    obtain res au1 w1 where m: "initialize orc (automation_of t) w = (res, au1, w1)"
      by (cases "initialize orc (automation_of t) w")
    have w1: "w1 = snd (snd (initialize orc (automation_of t) w))" using m by simp
    have f: "?P w1 = ?P w" "?R w1 = ?R w"
      unfolding w1 by (simp_all add: initialize_fields)
    from r AInit have "w' = (case res of Inl e \<Rightarrow> snd (fatal orc e w1) | Inr u \<Rightarrow> w1)"
      by (auto simp: resume_def m split: sum.splits prod.splits)
    with f show ?thesis
      by (cases res) (simp_all add: fatal_def addLog_eq)
  next
    case ALogin
    obtain res w1 where m: "login orc (automation_of t) w = (res, w1)"
      by (cases "login orc (automation_of t) w")
    have w1: "w1 = snd (login orc (automation_of t) w)" using m by simp
    have f: "?P w1 = ?P w" "?R w1 = ?R w"
      unfolding w1 by (simp_all add: login_fields)
    from r ALogin have "w' = snd (if res = Inr True then loop_head orc 0 w1
               else fatal orc (case res of Inl e \<Rightarrow> e | Inr b \<Rightarrow> ''Error en el login'') w1)"
      by (auto simp: resume_def m split: sum.splits prod.splits)
    with f show ?thesis
      by (simp add: loop_head_effect fatal_def addLog_eq)
  next
    case (ASearch i)
    obtain res w1 where m:
      "searchAndSelectATM orc (idNCR (records (currentProcessing w) ! i)) w = (res, w1)"
      by (cases "searchAndSelectATM orc (idNCR (records (currentProcessing w) ! i)) w")
    have w1: "w1 = snd (searchAndSelectATM orc (idNCR (records (currentProcessing w) ! i)) w)"
      using m by simp
    have f: "?P w1 = ?P w" "?R w1 = ?R w"
      unfolding w1 by (simp_all add: search_fields)
    from r ASearch have w': "w' =
        (case res of
           Inl e \<Rightarrow> snd (record_failed orc i e w1)
         | Inr searchSuccess \<Rightarrow>
             (if \<not> searchSuccess
              then snd (loop_head orc (i + 1)
                     (set_record i (\<lambda>r. r\<lparr>status := ''error'',
                        error := Some ''No se pudo encontrar el ATM''\<rparr>) w1))
              else w1))"
      by (auto simp: resume_def m split: sum.splits prod.splits)
    show ?thesis
    proof (cases res)
      case (Inl e)
      with w' f ASearch
        set_record_status [where f = "\<lambda>r. r\<lparr>status := ''error'', error := Some e\<rparr>"
          and w = w1 and i = i and j = j]
      show ?thesis
        by (auto simp: record_failed_effect set_record_simps)
    next
      case (Inr b)
      with w' f ASearch
        set_record_status [where f = "\<lambda>r. r\<lparr>status := ''error'',
            error := Some ''No se pudo encontrar el ATM''\<rparr>" and w = w1 and i = i and j = j]
      show ?thesis
        by (auto simp: loop_head_effect set_record_simps)
    qed
  next
    case (ACreate i)
    obtain res w1 where m:
      "createIncident orc (records (currentProcessing w) ! i) w = (res, w1)"
      by (cases "createIncident orc (records (currentProcessing w) ! i) w")
    have w1: "w1 = snd (createIncident orc (records (currentProcessing w) ! i) w)" using m by simp
    have f: "?P w1 = ?P w" "?R w1 = ?R w"
      unfolding w1 by (simp_all add: create_fields)
    define w2 where "w2 = (\<lambda>createSuccess.
                     (if createSuccess
                      then addLog orc (''Registro ''
                             @ show_cell (idNCR (records (currentProcessing w1) ! i))
                             @ '' procesado exitosamente'') ''success''
                             (set_record i (\<lambda>r. r\<lparr>status := ''completed''\<rparr>) w1)
                      else set_record i (\<lambda>r. r\<lparr>status := ''error'',
                             error := Some ''Error creando incidente''\<rparr>) w1))"
    have f2: "?P (w2 b) = ?P w" "length (?R (w2 b)) = length (?R w)"
      "status (?R (w2 b) ! j) = status (?R w ! j) \<or> terminal (status (?R (w2 b) ! j)) \<and> j = i \<and> i < length (?R w)"
      "i < length (?R w) \<longrightarrow> terminal (status (?R (w2 b) ! i))" for b
      using f set_record_status [where f = "\<lambda>r. r\<lparr>status := ''completed''\<rparr>" and w = w1 and i = i and j = j]
        set_record_status [where f = "\<lambda>r. r\<lparr>status := ''error'',
                             error := Some ''Error creando incidente''\<rparr>" and w = w1 and i = i and j = j]
      by (auto simp: w2_def addLog_eq set_record_simps)
    from r ACreate have w': "w' =
        (case res of
           Inl e \<Rightarrow> snd (record_failed orc i e w1)
         | Inr createSuccess \<Rightarrow> snd (after_create orc (config_of t) i (w2 createSuccess)))"
      by (auto simp: resume_def m Let_def w2_def split: sum.splits prod.splits)
    show ?thesis
    proof (cases res)
      case (Inl e)
      with w' f ACreate
        set_record_status [where f = "\<lambda>r. r\<lparr>status := ''error'', error := Some e\<rparr>"
          and w = w1 and i = i and j = j]
      show ?thesis
        by (auto simp: record_failed_effect set_record_simps)
    next
      case (Inr b)
      with w' ACreate f2 [of b] show ?thesis
        by (auto simp: after_create_effect)
    qed
  next
    case (ADelay i)
    from r ADelay have "w' = snd (loop_head orc (i + 1) (increment_processed w))"
      by (auto simp: resume_def split: prod.splits)
    with ADelay show ?thesis
      by (auto simp: loop_head_effect increment_processed_def)
  next
    case AClose
    obtain res w1 where m: "close orc (automation_of t) w = (res, w1)"
      by (cases "close orc (automation_of t) w")
    have f: "?P w1 = ?P w" "?R w1 = ?R w"
      using close_fields [of orc "automation_of t" w] m by simp_all
    from r AClose have "w' =
        (case res of
           Inl e \<Rightarrow> w1
         | Inr u \<Rightarrow> w1\<lparr>currentProcessing := (currentProcessing w1)
                     \<lparr>isProcessing := False, currentRecord := None\<rparr>\<rparr>)"
      by (auto simp: resume_def m split: sum.splits)
    with f show ?thesis by (cases res) simp_all
  next
    case ADone
    with r show ?thesis by (simp add: resume_def)
  next
    case ARejected
    with r show ?thesis by (simp add: resume_def)
  qed
  then show "length (?R w') = length (?R w)"
    and "status (?R w' ! j) = status (?R w ! j)
         \<or> (terminal (status (?R w' ! j)) \<and> j < length (?R w)
            \<and> (pc_of t = ASearch j \<or> pc_of t = ACreate j))"
    and "?P w' = ?P w
         \<or> (?P w' = ?P w + 1
            \<and> (\<exists>i. (pc_of t = ASearch i \<or> pc_of t = ACreate i \<or> pc_of t = ADelay i)
                   \<and> (i < length (?R w) \<longrightarrow> pc_of t \<noteq> ADelay i \<longrightarrow>
                        terminal (status (?R w' ! i)))))"
    by simp_all
qed

subsection \<open>The invariant of a simulated batch run\<close>

lemma prefix_terminal_sim_0 [simp]: "prefix_terminal_sim 0 rs"
  by (simp add: prefix_terminal_sim_def)

lemma prefix_terminal_sim_update:
  "prefix_terminal_sim i rs \<Longrightarrow> i < length rs \<Longrightarrow> terminal (status_s r) \<Longrightarrow>
   prefix_terminal_sim (Suc i) (rs[i := r])"
  by (auto simp: prefix_terminal_sim_def nth_list_update less_Suc_eq)

lemma prefix_terminal_sim_count:
  assumes "prefix_terminal_sim i rs" "i \<le> length rs"
  shows "i \<le> length (filter (\<lambda>r. terminal (status_s r)) rs)"
proof -
  have "filter (\<lambda>r. terminal (status_s r)) (take i rs) = take i rs"
    using assms by (auto simp: prefix_terminal_sim_def filter_id_conv in_set_conv_nth)
  moreover have "rs = take i rs @ drop i rs" by simp
  ultimately have "length (filter (\<lambda>r. terminal (status_s r)) rs)
      = length (take i rs) + length (filter (\<lambda>r. terminal (status_s r)) (drop i rs))"
    by (metis filter_append length_append)
  with assms(2) show ?thesis by simp
qed

text \<open>One step of a task of the simulated server, whatever the world answers.\<close>

lemma resume_sim_effect:
  "length (records_of (fst (resume_sim orc k t w))) = length (records_of t)"
  "status_s (records_of (fst (resume_sim orc k t w)) ! j) = status_s (records_of t ! j)
   \<or> (terminal (status_s (records_of (fst (resume_sim orc k t w)) ! j))
      \<and> j < length (records_of t) \<and> pc_sim_of t = SCreate j)"
  "releases (hist_sim (snd (resume_sim orc k t w))) = releases (hist_sim w)"
proof -
  show "length (records_of (fst (resume_sim orc k t w))) = length (records_of t)"
    by (cases "pc_sim_of t") (simp_all add: runner_sim_defs)
  show "releases (hist_sim (snd (resume_sim orc k t w))) = releases (hist_sim w)"
    by (cases "pc_sim_of t") (simp_all add: runner_sim_defs)
  show "status_s (records_of (fst (resume_sim orc k t w)) ! j) = status_s (records_of t ! j)
   \<or> (terminal (status_s (records_of (fst (resume_sim orc k t w)) ! j))
      \<and> j < length (records_of t) \<and> pc_sim_of t = SCreate j)"
  proof (cases "pc_sim_of t")
    case (SCreate i)
    show ?thesis
    proof (cases "i < length (records_of t)")
      case True
      with SCreate show ?thesis
        by (cases "j = i") (simp_all add: runner_sim_defs)
    next
      case False
      with SCreate show ?thesis
        by (simp add: runner_sim_defs list_update_beyond)
    qed
  qed (simp_all add: runner_sim_defs)
qed

lemma batch_inv_sim_resume:
  assumes "batch_inv_sim k s" "resume_sim orc k (tasks_sim s ! k) (glob_sim s) = (t', w')"
  shows "batch_inv_sim k (s\<lparr>glob_sim := w', tasks_sim := (tasks_sim s)[k := t']\<rparr>)"
proof (cases "pc_sim_of (tasks_sim s ! k)")
  case SLogin
  with assms show ?thesis
    unfolding batch_inv_sim_def by (auto simp: runner_sim_defs split: if_splits)
next
  case (SSearch i)
  with assms show ?thesis
    unfolding batch_inv_sim_def by (auto simp: runner_sim_defs split: if_splits)
next
  case (SCreate i)
  with assms show ?thesis
    unfolding batch_inv_sim_def
    by (auto simp: runner_sim_defs prefix_terminal_sim_update split: if_splits)
next
  case (SDelay i)
  with assms show ?thesis
    unfolding batch_inv_sim_def by (auto simp: runner_sim_defs split: if_splits)
next
  case SDone
  with assms(2) have "t' = tasks_sim s ! k" "w' = glob_sim s" by (simp_all add: resume_sim_def)
  then have "s\<lparr>glob_sim := w', tasks_sim := (tasks_sim s)[k := t']\<rparr> = s" by simp
  with assms(1) show ?thesis by simp
qed

lemma resume_sim_SDone: "pc_sim_of t = SDone \<Longrightarrow> resume_sim orc k t w = (t, w)"
  by (simp add: resume_sim_def)

lemma batch_inv_sim_Tick: "batch_inv_sim k s \<Longrightarrow> batch_inv_sim k (step_sim orc (Tick_sim k') s)"
proof -
  assume inv: "batch_inv_sim k s"
  show ?thesis
  proof (cases "k' < length (tasks_sim s)")
    case False
    with inv show ?thesis by (simp add: step_sim_def)
  next
    case k': True
    obtain t' w' where r: "resume_sim orc k' (tasks_sim s ! k') (glob_sim s) = (t', w')"
      by (cases "resume_sim orc k' (tasks_sim s ! k') (glob_sim s)")
    have s': "step_sim orc (Tick_sim k') s = s\<lparr>glob_sim := w', tasks_sim := (tasks_sim s)[k' := t']\<rparr>"
      using k' r by (simp add: step_sim_def)
    show ?thesis
    proof (cases "k' = k")
      case True
      with inv r s' show ?thesis by (simp add: batch_inv_sim_resume)
    next
      case False
      with inv k' have "pc_sim_of (tasks_sim s ! k') = SDone" by (simp add: batch_inv_sim_def)
      with r have "t' = tasks_sim s ! k'" "w' = glob_sim s" by (simp_all add: resume_sim_SDone)
      then have "step_sim orc (Tick_sim k') s = s" using s' by simp
      with inv show ?thesis by simp
    qed
  qed
qed

lemma batch_inv_sim_Stop: "batch_inv_sim k s \<Longrightarrow> batch_inv_sim k (step_sim orc Stop_sim s)"
  unfolding batch_inv_sim_def
  by (auto simp: step_sim_def stop_sim_def addLog_sim_eq Let_def split: pc_sim.splits)

lemma batch_inv_sim_step:
  "batch_inv_sim k s \<Longrightarrow> \<not> is_process ev \<Longrightarrow> batch_inv_sim k (step_sim orc ev s)"
  by (cases ev) (simp_all add: batch_inv_sim_Tick batch_inv_sim_Stop is_process_def)

lemma batch_inv_sim_run:
  "batch_inv_sim k s \<Longrightarrow> \<forall>ev \<in> set evs. \<not> is_process ev \<Longrightarrow>
   batch_inv_sim k (run_sim orc evs s)"
  by (induction evs arbitrary: s) (simp_all add: batch_inv_sim_step)

lemma batch_inv_sim_process:
  assumes "\<forall>t \<in> set (tasks_sim s). pc_sim_of t = SDone"
    "fst (process orc req s) = Json_success ''Procesamiento iniciado''"
  shows "batch_inv_sim (length (tasks_sim s)) (snd (process orc req s))"
  using assms unfolding batch_inv_sim_def
  by (auto simp: process_def Let_def addLog_sim_eq nth_append split: if_splits)

text \<open>While the loop runs the count is the loop index, and it never falls.\<close>

lemma batch_inv_sim_count:
  assumes "batch_inv_sim k s" "pc_sim_of (tasks_sim s ! k) \<noteq> SDone"
  shows "processedCount (processingState (glob_sim s)) \<le> terminal_count_sim (tasks_sim s ! k)"
proof (cases "pc_sim_of (tasks_sim s ! k)")
  case SLogin
  with assms show ?thesis by (simp add: batch_inv_sim_def)
next
  case (SSearch i)
  with assms show ?thesis
    using prefix_terminal_sim_count [of i "records_of (tasks_sim s ! k)"]
    by (simp add: batch_inv_sim_def terminal_count_sim_def Let_def)
next
  case (SCreate i)
  with assms show ?thesis
    using prefix_terminal_sim_count [of i "records_of (tasks_sim s ! k)"]
    by (simp add: batch_inv_sim_def terminal_count_sim_def Let_def)
next
  case (SDelay i)
  with assms show ?thesis
    using prefix_terminal_sim_count [of "i + 1" "records_of (tasks_sim s ! k)"]
    by (simp add: batch_inv_sim_def terminal_count_sim_def Let_def)
next
  case SDone
  with assms show ?thesis by simp
qed

lemma count_sim_step:
  assumes "batch_inv_sim k s" "\<not> is_process ev"
  shows "processedCount (processingState (glob_sim s))
         \<le> processedCount (processingState (glob_sim (step_sim orc ev s)))"
proof (cases ev)
  case (Process p)
  with assms show ?thesis by (simp add: is_process_def)
next
  case Stop_sim
  then show ?thesis by (simp add: step_sim_def stop_sim_def addLog_sim_eq)
next
  case (Tick_sim k')
  show ?thesis
  proof (cases "k' < length (tasks_sim s)")
    case False
    with Tick_sim show ?thesis by (simp add: step_sim_def)
  next
    case k': True
    show ?thesis
    proof (cases "k' = k")
      case False
      with assms k' have "pc_sim_of (tasks_sim s ! k') = SDone" by (simp add: batch_inv_sim_def)
      with Tick_sim k' show ?thesis by (simp add: step_sim_def resume_sim_SDone)
    next
      case True
      with assms(1) Tick_sim k' show ?thesis
        unfolding batch_inv_sim_def
        by (cases "pc_sim_of (tasks_sim s ! k)")
           (auto simp: step_sim_def runner_sim_defs split: if_splits)
    qed
  qed
qed

lemma count_sim_run:
  "batch_inv_sim k s \<Longrightarrow> \<forall>ev \<in> set evs. \<not> is_process ev \<Longrightarrow>
   processedCount (processingState (glob_sim s))
     \<le> processedCount (processingState (glob_sim (run_sim orc evs s)))"
proof (induction evs arbitrary: s)
  case Nil
  then show ?case by simp
next
  case (Cons ev evs)
  have "processedCount (processingState (glob_sim s))
         \<le> processedCount (processingState (glob_sim (step_sim orc ev s)))"
    using Cons.prems by (simp add: count_sim_step)
  moreover have "processedCount (processingState (glob_sim (step_sim orc ev s)))
         \<le> processedCount (processingState (glob_sim (run_sim orc evs (step_sim orc ev s))))"
    using Cons.prems by (intro Cons.IH) (simp_all add: batch_inv_sim_step)
  ultimately show ?case by simp
qed

end
